theory Spec2Isabelle
  imports Main
begin

section \<open>Queue-mediated generator pipeline (genqueue.py, genmultiplex.py, consthread.py)\<close>

subsection \<open>Values, queues and the store of queues\<close>

text \<open>
  A queue holds arbitrary Python objects. The end-of-stream marker of genqueue.py is the
  class object \<^verbatim>\<open>StopIteration\<close> itself, put into the queue like any other object and
  recognised by \<^verbatim>\<open>item is StopIteration\<close>. So the object universe has that one
  distinguished object and, beside it, the ordinary values.
\<close>

datatype 'a pyobj = StopIteration | Val 'a

text \<open>
  \<^verbatim>\<open>Queue.Queue()\<close> objects are shared mutable state: several generators and several
  threads may hold the same queue. The store maps the identity of a queue to the entries
  it currently holds, oldest first. \<^verbatim>\<open>put\<close> appends at the tail and never blocks (the
  queues are unbounded); \<^verbatim>\<open>get\<close> removes the head and blocks while the queue is empty.
\<close>

type_synonym qid = nat
type_synonym 'a chans = "qid \<Rightarrow> 'a pyobj list"

definition put :: "qid \<Rightarrow> 'a pyobj \<Rightarrow> 'a chans \<Rightarrow> 'a chans" where
  "put q x ch = ch(q := ch q @ [x])"

text \<open>\<^verbatim>\<open>get\<close>: \<open>None\<close> stands for a call that blocks on an empty queue.\<close>

definition get :: "qid \<Rightarrow> 'a chans \<Rightarrow> ('a pyobj \<times> 'a chans) option" where
  "get q ch = (case ch q of [] \<Rightarrow> None | x # rest \<Rightarrow> Some (x, ch(q := rest)))"

subsection \<open>Upstream sequences\<close>

text \<open>
  A finite, single-pass upstream sequence produces some items and then either signals
  its end or raises an exception.
\<close>

datatype ending = Exhausted | Raises string

record 'a source =
  items :: "'a pyobj list"
  ending :: ending

definition finite_seq :: "'a pyobj list \<Rightarrow> 'a source" where
  "finite_seq xs = \<lparr>items = xs, ending = Exhausted\<rparr>"

subsection \<open>genqueue.py: sendto_queue\<close>

text \<open>
  \<^verbatim>\<open>
  def sendto_queue(source,thequeue):
      for item in source:
          thequeue.put(item)
      thequeue.put(StopIteration)
  \<close>
  The function as a small-step machine, one queue operation per step, so that several
  of them can be interleaved when they run as threads. There is no exception handler:
  an exception raised by the source leaves the loop and the function, and the final
  \<^verbatim>\<open>put\<close> is not reached.
\<close>

datatype 'a pump = Pumping "'a pyobj list" ending | Returned | Died string

fun pump_step :: "qid \<Rightarrow> 'a pump \<Rightarrow> 'a chans \<Rightarrow> 'a pump \<times> 'a chans" where
  "pump_step q (Pumping (x # xs) e) ch = (Pumping xs e, put q x ch)"
| "pump_step q (Pumping [] Exhausted) ch = (Returned, put q StopIteration ch)"
| "pump_step q (Pumping [] (Raises err)) ch = (Died err, ch)"
| "pump_step q Returned ch = (Returned, ch)"
| "pump_step q (Died err) ch = (Died err, ch)"

fun terminated :: "'a pump \<Rightarrow> bool" where
  "terminated (Pumping xs e) = False"
| "terminated Returned = True"
| "terminated (Died err) = True"

text \<open>Running the machine to its end: the synchronous call.\<close>

fun pump_run :: "qid \<Rightarrow> 'a pyobj list \<Rightarrow> ending \<Rightarrow> 'a chans \<Rightarrow> 'a pump \<times> 'a chans" where
  "pump_run q (x # xs) e ch = pump_run q xs e (put q x ch)"
| "pump_run q [] e ch = pump_step q (Pumping [] e) ch"

definition sendto_queue :: "'a source \<Rightarrow> qid \<Rightarrow> 'a chans \<Rightarrow> (string + unit) \<times> 'a chans" where
  "sendto_queue src thequeue ch =
     (case pump_run thequeue (items src) (ending src) ch of
        (Died err, ch') \<Rightarrow> (Inl err, ch')
      | (_, ch') \<Rightarrow> (Inr (), ch'))"

subsection \<open>genqueue.py: genfrom_queue\<close>

text \<open>
  \<^verbatim>\<open>
  def genfrom_queue(thequeue):
      while True:
          item = thequeue.get()
          if item is StopIteration: break
          yield item
  \<close>
  A generator object is its queue and whether its body has returned. One pull
  (\<^verbatim>\<open>next\<close>) of a generator that has returned raises \<^verbatim>\<open>StopIteration\<close> again without
  running any code; otherwise it runs the body up to the next \<^verbatim>\<open>yield\<close> or to the
  \<^verbatim>\<open>break\<close>.
\<close>

record adapter =
  chan :: qid
  finished :: bool

datatype 'a pull = Yield "'a pyobj" | End | Blocked

definition genfrom_queue :: "qid \<Rightarrow> adapter" where
  "genfrom_queue thequeue = \<lparr>chan = thequeue, finished = False\<rparr>"

definition genfrom_queue_next :: "adapter \<Rightarrow> 'a chans \<Rightarrow> 'a pull \<times> adapter \<times> 'a chans" where
  "genfrom_queue_next a ch =
     (if finished a then (End, a, ch)
      else case get (chan a) ch of
             None \<Rightarrow> (Blocked, a, ch)
           | Some (item, ch') \<Rightarrow>
               if item = StopIteration then (End, a\<lparr>finished := True\<rparr>, ch')
               else (Yield item, a, ch'))"

text \<open>
  Consuming a generator to its end, as \<^verbatim>\<open>list(g)\<close> or a \<^verbatim>\<open>for\<close> loop does. The
  outcome says whether the generator ended or the consumer is left blocked in
  \<^verbatim>\<open>get\<close> on an empty queue.
\<close>

datatype outcome = Ended | Blocks

function consume :: "adapter \<Rightarrow> 'a chans \<Rightarrow> ('a pyobj list \<times> outcome) \<times> adapter \<times> 'a chans" where
  "consume a ch =
     (case genfrom_queue_next a ch of
        (Yield x, a', ch') \<Rightarrow>
          (case consume a' ch' of ((xs, r), a'', ch'') \<Rightarrow> ((x # xs, r), a'', ch''))
      | (End, a', ch') \<Rightarrow> (([], Ended), a', ch')
      | (Blocked, a', ch') \<Rightarrow> (([], Blocks), a', ch'))"
  by pat_completeness auto
termination
  by (relation "measure (\<lambda>(a, ch). length (ch (chan a)))")
     (auto simp: genfrom_queue_next_def get_def split: if_splits list.splits)

subsection \<open>gencat.py: gen_cat\<close>

text \<open>
  Modelled from the spec: \<^verbatim>\<open>gen_cat\<close>, which genmultiplex.py imports from gencat.py
  and which is not among the sources. The merged sequence performs round-robin
  concatenation over its adapters in input order: one pull takes an element from the
  adapter whose turn it is and moves the turn on; an adapter that signals its end is
  dropped from the cycle; the merged sequence ends once no adapter is left.

  The state of the merged sequence is the list of adapters still in the cycle, the one
  whose turn it is first. A pull that blocks in \<^verbatim>\<open>get\<close> leaves the turn where it is.
\<close>

fun gen_cat_next :: "adapter list \<Rightarrow> 'a chans \<Rightarrow> 'a pull \<times> adapter list \<times> 'a chans" where
  "gen_cat_next [] ch = (End, [], ch)"
| "gen_cat_next (a # as) ch =
     (case genfrom_queue_next a ch of
        (Yield x, a', ch') \<Rightarrow> (Yield x, as @ [a'], ch')
      | (End, a', ch') \<Rightarrow> gen_cat_next as ch'
      | (Blocked, a', ch') \<Rightarrow> (Blocked, a' # as, ch'))"

definition gen_cat :: "adapter list \<Rightarrow> adapter list" where
  "gen_cat sources = sources"

definition backlog :: "'a chans \<Rightarrow> adapter list \<Rightarrow> nat" where
  "backlog ch as = sum_list (map (\<lambda>a. length (ch (chan a))) as)"

function gen_cat_list ::
  "adapter list \<Rightarrow> 'a chans \<Rightarrow> ('a pyobj list \<times> outcome) \<times> adapter list \<times> 'a chans" where
  "gen_cat_list as ch =
     (case gen_cat_next as ch of
        (Yield x, as', ch') \<Rightarrow>
          (case gen_cat_list as' ch' of ((xs, r), as'', ch'') \<Rightarrow> ((x # xs, r), as'', ch''))
      | (End, as', ch') \<Rightarrow> (([], Ended), as', ch')
      | (Blocked, as', ch') \<Rightarrow> (([], Blocks), as', ch'))"
  by pat_completeness auto
termination
proof (relation "measure (\<lambda>(as, ch). backlog ch as)")
  show "wf (measure (\<lambda>(as, ch :: 'a chans). backlog ch as))"
    by simp
next
  fix as as' :: "adapter list" and ch ch' :: "'a chans" and p y x
  assume run: "(p, y) = gen_cat_next as ch" "p = Yield x" "(as', ch') = y"
  have mono: "backlog c' bs \<le> backlog c bs" if "\<And>q. length (c' q) \<le> length (c q)"
    for c c' :: "'a chans" and bs
    unfolding backlog_def using that by (induction bs) (simp_all add: add_mono)
  have step: "gen_cat_next bs c = (Yield v, bs', c') \<Longrightarrow> backlog c' bs' < backlog c bs"
    for bs bs' and c c' :: "'a chans" and v
  proof (induction bs arbitrary: c)
    case Nil
    then show ?case by simp
  next
    case (Cons b bs)
    show ?case
    proof (cases "finished b")
      case True
      with Cons.prems have "gen_cat_next bs c = (Yield v, bs', c')"
        by (simp add: genfrom_queue_next_def)
      from Cons.IH [OF this] show ?thesis by (simp add: backlog_def)
    next
      case live: False
      show ?thesis
      proof (cases "c (chan b)")
        case Nil
        with live Cons.prems show ?thesis
          by (simp add: genfrom_queue_next_def get_def)
      next
        case (Cons e rest)
        have le: "\<And>q. length ((c(chan b := rest)) q) \<le> length (c q)"
          using Cons by simp
        show ?thesis
        proof (cases "e = StopIteration")
          case True
          with live Cons Cons.prems
          have "gen_cat_next bs (c(chan b := rest)) = (Yield v, bs', c')"
            by (simp add: genfrom_queue_next_def get_def)
          from \<open>\<And>c. gen_cat_next bs c = (Yield v, bs', c') \<Longrightarrow> backlog c' bs' < backlog c bs\<close> [OF this]
          have "backlog c' bs' < backlog (c(chan b := rest)) bs" .
          also have "\<dots> \<le> backlog c bs" by (rule mono [OF le])
          also have "\<dots> \<le> backlog c (b # bs)" by (simp add: backlog_def)
          finally show ?thesis .
        next
          case False
          with live Cons Cons.prems
          have eq: "bs' = bs @ [b]" "c' = c(chan b := rest)"
            by (auto simp: genfrom_queue_next_def get_def)
          have "backlog c' bs \<le> backlog c bs"
            unfolding eq by (rule mono [OF le])
          moreover have "length (c' (chan b)) < length (c (chan b))"
            using Cons eq by simp
          ultimately show ?thesis
            unfolding eq by (simp add: backlog_def)
        qed
      qed
    qed
  qed
  from run have "gen_cat_next as ch = (Yield x, as', ch')"
    by simp
  from step [OF this]
  show "((as', ch'), as, ch) \<in> measure (\<lambda>(as, ch). backlog ch as)"
    by simp
qed

subsection \<open>genmultiplex.py: multiplex\<close>

text \<open>
  \<^verbatim>\<open>
  def multiplex(sources):
      in_q = Queue.Queue()
      consumers = []
      for s in sources:
          thr = threading.Thread(target=sendto_queue,
                                 args=(s,in_q))
          thr.start()
          consumers.append(genfrom_queue(in_q))
      return gen_cat(consumers)
  \<close>
  One queue is created, before the loop. Every thread started in the loop runs
  \<^verbatim>\<open>sendto_queue\<close> into that queue, and every generator appended to \<^verbatim>\<open>consumers\<close>
  reads from that same queue. A thread is the queue it was given and the state of its
  \<^verbatim>\<open>sendto_queue\<close> call. The argument \<open>q\<close> is the identity of the queue that
  \<^verbatim>\<open>Queue.Queue()\<close> returns; the new queue is empty.
\<close>

type_synonym 'a thread = "qid \<times> 'a pump"

definition Thread_start :: "'a source \<Rightarrow> qid \<Rightarrow> 'a thread" where
  "Thread_start s q = (q, Pumping (items s) (ending s))"

definition multiplex ::
  "qid \<Rightarrow> 'a source list \<Rightarrow> 'a chans \<Rightarrow> ('a thread list \<times> adapter list) \<times> 'a chans" where
  "multiplex q sources ch =
     (case fold (\<lambda>s (thrs, consumers).
                   (thrs @ [Thread_start s q], consumers @ [genfrom_queue q]))
                sources ([], []) of
        (thrs, consumers) \<Rightarrow> ((thrs, gen_cat consumers), ch(q := [])))"

text \<open>
  The threads run concurrently with each other and with the caller. The queue is their
  only shared state and each \<^verbatim>\<open>put\<close> is atomic, so a run is determined by the order
  in which the threads take their steps: a schedule is the list of the indices of the
  threads, in the order in which they take a step. A step of a thread that has terminated
  (or of an index that is no thread) does nothing.
\<close>

definition thread_step :: "nat \<Rightarrow> 'a thread list \<times> 'a chans \<Rightarrow> 'a thread list \<times> 'a chans" where
  "thread_step i s =
     (case s of (thrs, ch) \<Rightarrow>
        if i < length thrs then
          (case thrs ! i of (q, p) \<Rightarrow>
             (case pump_step q p ch of (p', ch') \<Rightarrow> (thrs[i := (q, p')], ch')))
        else (thrs, ch))"

fun run_threads :: "nat list \<Rightarrow> 'a thread list \<times> 'a chans \<Rightarrow> 'a thread list \<times> 'a chans" where
  "run_threads [] s = s"
| "run_threads (i # sched) s = run_threads sched (thread_step i s)"

text \<open>
  What the caller obtains from \<^verbatim>\<open>list(multiplex(sources))\<close> when the threads run by
  the schedule \<open>sched\<close>. The consumer is the only reader of the queue and reads it in
  FIFO order, waiting in \<^verbatim>\<open>get\<close> whenever the queue is empty, so what it reads is the
  sequence of entries in the order of their arrival, whenever it reads them: the merged
  sequence is consumed on the queue as the threads leave it (that pulling earlier gives
  the same is proved below, as \<open>multiplex_interleaved\<close>). The outcome \<open>Blocks\<close> then
  says that the consumer waits for an entry that the schedule has not delivered.
\<close>

definition multiplex_threads :: "nat list \<Rightarrow> qid \<Rightarrow> 'a source list \<Rightarrow> 'a chans \<Rightarrow> 'a thread list" where
  "multiplex_threads sched q sources ch =
     (case multiplex q sources ch of
        ((thrs, merged), ch0) \<Rightarrow> fst (run_threads sched (thrs, ch0)))"

definition multiplex_arrivals :: "nat list \<Rightarrow> qid \<Rightarrow> 'a source list \<Rightarrow> 'a chans \<Rightarrow> 'a pyobj list" where
  "multiplex_arrivals sched q sources ch =
     (case multiplex q sources ch of
        ((thrs, merged), ch0) \<Rightarrow> snd (run_threads sched (thrs, ch0)) q)"

definition multiplex_list ::
  "nat list \<Rightarrow> qid \<Rightarrow> 'a source list \<Rightarrow> 'a chans \<Rightarrow> 'a pyobj list \<times> outcome" where
  "multiplex_list sched q sources ch =
     (case multiplex q sources ch of
        ((thrs, merged), ch0) \<Rightarrow>
          (case run_threads sched (thrs, ch0) of
             (thrs', ch1) \<Rightarrow> fst (gen_cat_list merged ch1)))"

text \<open>A schedule is complete when it lets every thread run until it has terminated.\<close>

definition complete :: "nat list \<Rightarrow> qid \<Rightarrow> 'a source list \<Rightarrow> 'a chans \<Rightarrow> bool" where
  "complete sched q sources ch =
     list_all (\<lambda>t. terminated (snd t)) (multiplex_threads sched q sources ch)"

text \<open>
  The consumer running concurrently with the threads. An action is a step of a thread
  or a pull of the consumer on the merged sequence; the system is the threads, the
  queues, the merged sequence, what the consumer has received, and whether it has been
  told the end. A pull that blocks leaves the consumer inside the \<^verbatim>\<open>get\<close> it waits
  in, and its next pull goes on from there.
\<close>

datatype action = Step nat | Pull

record 'a system =
  threads :: "'a thread list"
  store :: "'a chans"
  merged :: "adapter list"
  received :: "'a pyobj list"
  ended :: bool

fun act :: "action \<Rightarrow> 'a system \<Rightarrow> 'a system" where
  "act (Step i) s =
     (case thread_step i (threads s, store s) of
        (thrs', ch') \<Rightarrow> s\<lparr>threads := thrs', store := ch'\<rparr>)"
| "act Pull s =
     (if ended s then s
      else case gen_cat_next (merged s) (store s) of
             (Yield x, as', ch') \<Rightarrow> s\<lparr>store := ch', merged := as', received := received s @ [x]\<rparr>
           | (End, as', ch') \<Rightarrow> s\<lparr>store := ch', merged := as', ended := True\<rparr>
           | (Blocked, as', ch') \<Rightarrow> s\<lparr>store := ch', merged := as'\<rparr>)"

fun run_system :: "action list \<Rightarrow> 'a system \<Rightarrow> 'a system" where
  "run_system [] s = s"
| "run_system (a # acts) s = run_system acts (act a s)"

fun steps_of :: "action list \<Rightarrow> nat list" where
  "steps_of [] = []"
| "steps_of (Step i # acts) = i # steps_of acts"
| "steps_of (Pull # acts) = steps_of acts"

text \<open>
  What the consumer receives in all: what it has received so far, followed by what it
  receives from the queues as they are now.
\<close>

definition in_all :: "'a system \<Rightarrow> 'a pyobj list \<times> outcome" where
  "in_all s =
     (if ended s then (received s, Ended)
      else case fst (gen_cat_list (merged s) (store s)) of (xs, r) \<Rightarrow> (received s @ xs, r))"

definition multiplex_system :: "qid \<Rightarrow> 'a source list \<Rightarrow> 'a chans \<Rightarrow> 'a system" where
  "multiplex_system q sources ch =
     (case multiplex q sources ch of
        ((thrs, as), ch0) \<Rightarrow>
          \<lparr>threads = thrs, store = ch0, merged = as, received = [], ended = False\<rparr>)"

subsection \<open>consthread.py: ConsumerThread, and broadcast\<close>

text \<open>
  \<^verbatim>\<open>
  class ConsumerThread(threading.Thread):
      def __init__(self,target):
           ...
           self.in_q   = Queue.Queue()
           self.target = target
      def send(self,item):
           self.in_q.put(item)
      def run(self):
          self.target(genfrom_queue(self.in_q))
  \<close>
  Each consumer thread owns the queue its constructor creates; its target is handed
  the generator over that queue.
\<close>

record consumer_thread =
  in_q :: qid

definition ConsumerThread :: "qid \<Rightarrow> 'a chans \<Rightarrow> consumer_thread \<times> 'a chans" where
  "ConsumerThread q ch = (\<lparr>in_q = q\<rparr>, ch(q := []))"

definition send :: "consumer_thread \<Rightarrow> 'a pyobj \<Rightarrow> 'a chans \<Rightarrow> 'a chans" where
  "send self item ch = put (in_q self) item ch"

definition run :: "consumer_thread \<Rightarrow> adapter" where
  "run self = genfrom_queue (in_q self)"

text \<open>
  Modelled from the spec: \<^verbatim>\<open>broadcast\<close>, which consthread.py imports from broadcast.py
  and which is not among the sources. It pulls one element at a time from the source;
  for each element it calls \<^verbatim>\<open>send\<close> on every sink, in the order of the list of
  sinks, before it pulls the next element; when the source is exhausted it sends the
  sentinel to every sink once, and returns. The state carries, beside the queues, the
  log of the \<^verbatim>\<open>put\<close> calls made, in the order in which they were made.
\<close>

type_synonym 'a putlog = "(qid \<times> 'a pyobj) list"

fun send_each ::
  "consumer_thread list \<Rightarrow> 'a pyobj \<Rightarrow> 'a chans \<times> 'a putlog \<Rightarrow> 'a chans \<times> 'a putlog" where
  "send_each [] item s = s"
| "send_each (c # cs) item (ch, log) = send_each cs item (send c item ch, log @ [(in_q c, item)])"

fun broadcast ::
  "'a pyobj list \<Rightarrow> consumer_thread list \<Rightarrow> 'a chans \<times> 'a putlog \<Rightarrow> 'a chans \<times> 'a putlog" where
  "broadcast [] sinks s = send_each sinks StopIteration s"
| "broadcast (item # source) sinks s = broadcast source sinks (send_each sinks item s)"

subsection \<open>Notions used to state the properties\<close>

text \<open>
  What a \<^verbatim>\<open>sendto_queue\<close> call has still to enqueue before it terminates: the items
  left in its source and, when the source ends normally, the sentinel.
\<close>

fun pending :: "'a pump \<Rightarrow> 'a pyobj list" where
  "pending (Pumping xs Exhausted) = xs @ [StopIteration]"
| "pending (Pumping xs (Raises err)) = xs"
| "pending Returned = []"
| "pending (Died err) = []"

text \<open>The number of steps a \<^verbatim>\<open>sendto_queue\<close> call has still to take.\<close>

fun steps_left :: "'a pump \<Rightarrow> nat" where
  "steps_left (Pumping xs e) = Suc (length xs)"
| "steps_left Returned = 0"
| "steps_left (Died err) = 0"

text \<open>A call that has not died and whose source does not raise ends with its sentinel.\<close>

fun returning :: "'a pump \<Rightarrow> bool" where
  "returning (Pumping xs e) = (e = Exhausted)"
| "returning Returned = True"
| "returning (Died err) = False"

text \<open>
  To follow the items through the merged sequence, an upstream sequence can be given
  with each item marked by the number of its source. \<^verbatim>\<open>multiplex\<close> never looks at an
  item except to compare it with the sentinel, so the marks change nothing in what it
  does. \<open>items_from i\<close> picks, in order, the items that carry the mark \<open>i\<close>.
\<close>

definition tagged :: "nat \<Rightarrow> 'a list \<Rightarrow> (nat \<times> 'a) source" where
  "tagged i xs = finite_seq (map (\<lambda>x. Val (i, x)) xs)"

fun items_from :: "nat \<Rightarrow> (nat \<times> 'a) pyobj list \<Rightarrow> 'a list" where
  "items_from i [] = []"
| "items_from i (StopIteration # ys) = items_from i ys"
| "items_from i (Val (j, x) # ys) = (if j = i then x # items_from i ys else items_from i ys)"

text \<open>
  The defining equations of the two consuming loops are recursive without a condition;
  they are unfolded by hand where needed.
\<close>

declare consume.simps [simp del] gen_cat_list.simps [simp del]

section \<open>Properties\<close>

subsection \<open>The synchronous pump and a single consumer\<close>

lemma pump_run_exhausted:
  "pump_run q xs Exhausted ch = (Returned, ch(q := ch q @ xs @ [StopIteration]))"
  by (induction xs arbitrary: ch) (simp_all add: put_def)

lemma pump_run_raises:
  "pump_run q xs (Raises err) ch = (Died err, ch(q := ch q @ xs))"
  by (induction xs arbitrary: ch) (simp_all add: put_def)

lemma sendto_queue_exhausted:
  "sendto_queue (finite_seq xs) q ch = (Inr (), ch(q := ch q @ xs @ [StopIteration]))"
  by (simp add: sendto_queue_def finite_seq_def pump_run_exhausted)

lemma sendto_queue_raises:
  "sendto_queue \<lparr>items = xs, ending = Raises err\<rparr> q ch = (Inl err, ch(q := ch q @ xs))"
  by (simp add: sendto_queue_def pump_run_raises)

lemma consume_upto_sentinel:
  "StopIteration \<notin> set xs \<Longrightarrow> \<not> finished a \<Longrightarrow> ch (chan a) = xs @ StopIteration # rest \<Longrightarrow>
     consume a ch = ((xs, Ended), a\<lparr>finished := True\<rparr>, ch(chan a := rest))"
proof (induction xs arbitrary: ch)
  case Nil
  then show ?case
    by (subst consume.simps) (simp add: genfrom_queue_next_def get_def)
next
  case (Cons x xs)
  from Cons.prems have step: "genfrom_queue_next a ch = (Yield x, a, ch(chan a := xs @ StopIteration # rest))"
    by (auto simp: genfrom_queue_next_def get_def)
  have "consume a (ch(chan a := xs @ StopIteration # rest)) =
          ((xs, Ended), a\<lparr>finished := True\<rparr>, (ch(chan a := xs @ StopIteration # rest))(chan a := rest))"
    using Cons.prems by (intro Cons.IH) simp_all
  then show ?case
    by (subst consume.simps) (simp add: step)
qed

lemma consume_no_sentinel:
  "StopIteration \<notin> set xs \<Longrightarrow> \<not> finished a \<Longrightarrow> ch (chan a) = xs \<Longrightarrow>
     consume a ch = ((xs, Blocks), a, ch(chan a := []))"
proof (induction xs arbitrary: ch)
  case Nil
  then have "ch(chan a := []) = ch" by auto
  with Nil show ?case
    by (subst consume.simps) (simp add: genfrom_queue_next_def get_def)
next
  case (Cons x xs)
  from Cons.prems have step: "genfrom_queue_next a ch = (Yield x, a, ch(chan a := xs))"
    by (auto simp: genfrom_queue_next_def get_def)
  have "consume a (ch(chan a := xs)) = ((xs, Blocks), a, (ch(chan a := xs))(chan a := []))"
    using Cons.prems by (intro Cons.IH) simp_all
  then show ?case
    by (subst consume.simps) (simp add: step)
qed

lemma consume_finished:
  "finished a \<Longrightarrow> consume a ch = (([], Ended), a, ch)"
  by (subst consume.simps) (simp add: genfrom_queue_next_def)

subsection \<open>One pull of the adapter\<close>

text \<open>
  Claim C7. For every channel \<open>q\<close>, the generator \<^verbatim>\<open>genfrom_queue(q)\<close> is bound to
  that channel and has not ended, and each pull on it dequeues one entry of that channel
  and of no other: if the entry is the sentinel the generator ends and the sentinel is
  consumed without being yielded, otherwise the entry is yielded and the generator stays
  as it is (on an empty channel the pull waits and changes nothing). The same holds for
  every generator that has not ended, on the channel it is bound to. No pull ever yields
  the sentinel. A pull on a generator that has ended reports the end again and touches no
  queue, so it neither fails nor blocks, and this holds for every pull after the first
  that reported the end, whatever the queues hold by then.
\<close>

theorem genfrom_queue_pull:
  "chan (genfrom_queue q) = q \<and> \<not> finished (genfrom_queue q)
   \<and> (ch q = item # rest \<longrightarrow>
        genfrom_queue_next (genfrom_queue q) ch =
          (if item = StopIteration
           then (End, \<lparr>chan = q, finished = True\<rparr>, ch(q := rest))
           else (Yield item, genfrom_queue q, ch(q := rest))))
   \<and> (ch q = [] \<longrightarrow> genfrom_queue_next (genfrom_queue q) ch = (Blocked, genfrom_queue q, ch))
   \<and> (\<not> finished a \<and> ch (chan a) = item # rest \<longrightarrow>
        genfrom_queue_next a ch =
          (if item = StopIteration then (End, a\<lparr>finished := True\<rparr>, ch(chan a := rest))
           else (Yield item, a, ch(chan a := rest))))
   \<and> (\<not> finished a \<and> ch (chan a) = [] \<longrightarrow> genfrom_queue_next a ch = (Blocked, a, ch))
   \<and> fst (genfrom_queue_next a ch) \<noteq> Yield StopIteration
   \<and> (finished a \<longrightarrow> genfrom_queue_next a ch = (End, a, ch))
   \<and> (genfrom_queue_next a ch = (End, a', ch') \<longrightarrow>
        (\<forall>ch''. genfrom_queue_next a' (ch'' :: 'a chans) = (End, a', ch'')))"
  by (auto simp: genfrom_queue_def genfrom_queue_next_def get_def split: list.splits)

theorem genfrom_queue_pull_witness:
  "chan (genfrom_queue 3) = 3
   \<and> genfrom_queue_next (genfrom_queue 3)
        ((\<lambda>_. [])(0 := [Val (9::nat)], 3 := [Val 7, StopIteration]))
     = (Yield (Val 7), genfrom_queue 3, (\<lambda>_. [])(0 := [Val 9], 3 := [StopIteration]))
   \<and> genfrom_queue_next (genfrom_queue 3) ((\<lambda>_. [])(0 := [Val (9::nat)], 3 := [StopIteration]))
     = (End, \<lparr>chan = 3, finished = True\<rparr>, (\<lambda>_. [])(0 := [Val 9], 3 := []))
   \<and> genfrom_queue_next (genfrom_queue 3) ((\<lambda>_. [])(0 := [Val (9::nat)]))
     = (Blocked, genfrom_queue 3, (\<lambda>_. [])(0 := [Val 9]))
   \<and> genfrom_queue_next \<lparr>chan = 3, finished = True\<rparr> ((\<lambda>_. [])(0 := [Val (9::nat)], 3 := [Val 8]))
     = (End, \<lparr>chan = 3, finished = True\<rparr>, (\<lambda>_. [])(0 := [Val 9], 3 := [Val 8]))"
proof -
  note t1 = genfrom_queue_pull [of 3 "(\<lambda>_. [])(0 := [Val (9::nat)], 3 := [Val 7, StopIteration])"
      "Val 7" "[StopIteration]" "genfrom_queue 3" "genfrom_queue 3" "\<lambda>_. []"]
  note t2 = genfrom_queue_pull [of 3 "(\<lambda>_. [])(0 := [Val (9::nat)], 3 := [StopIteration])"
      "StopIteration" "[]" "genfrom_queue 3" "genfrom_queue 3" "\<lambda>_. []"]
  note t3 = genfrom_queue_pull [of 3 "(\<lambda>_. [])(0 := [Val (9::nat)])" "Val 9" "[]"
      "\<lparr>chan = 3, finished = True\<rparr>" "genfrom_queue 3" "\<lambda>_. []"]
  note t4 = genfrom_queue_pull [of 3 "(\<lambda>_. [])(0 := [Val (9::nat)], 3 := [Val 8])" "Val 8" "[]"
      "\<lparr>chan = 3, finished = True\<rparr>" "genfrom_queue 3" "\<lambda>_. []"]
  have "chan (genfrom_queue 3) = 3"
    using t1 by blast
  moreover have "genfrom_queue_next (genfrom_queue 3)
        ((\<lambda>_. [])(0 := [Val (9::nat)], 3 := [Val 7, StopIteration]))
     = (Yield (Val 7), genfrom_queue 3, (\<lambda>_. [])(0 := [Val 9], 3 := [StopIteration]))"
    using t1 by (elim conjE) simp
  moreover have "genfrom_queue_next (genfrom_queue 3)
        ((\<lambda>_. [])(0 := [Val (9::nat)], 3 := [StopIteration]))
     = (End, \<lparr>chan = 3, finished = True\<rparr>, (\<lambda>_. [])(0 := [Val 9], 3 := []))"
    using t2 by (elim conjE) simp
  moreover have "genfrom_queue_next (genfrom_queue 3) ((\<lambda>_. [])(0 := [Val (9::nat)]))
     = (Blocked, genfrom_queue 3, (\<lambda>_. [])(0 := [Val 9]))"
    using t3 by (elim conjE) simp
  moreover have "genfrom_queue_next \<lparr>chan = 3, finished = True\<rparr>
        ((\<lambda>_. [])(0 := [Val (9::nat)], 3 := [Val 8]))
     = (End, \<lparr>chan = 3, finished = True\<rparr>, (\<lambda>_. [])(0 := [Val 9], 3 := [Val 8]))"
    using t4 by (elim conjE) simp
  ultimately show ?thesis
    by (intro conjI)
qed

subsection \<open>The sentinel is recognised by identity\<close>

lemma consume_first_sentinel:
  assumes "k < length (ch q)" "ch q ! k = StopIteration" "StopIteration \<notin> set (take k (ch q))"
  shows "consume (genfrom_queue q) ch
       = ((take k (ch q), Ended), \<lparr>chan = q, finished = True\<rparr>, ch(q := drop (Suc k) (ch q)))"
proof -
  from assms have "ch q = take k (ch q) @ StopIteration # drop (Suc k) (ch q)"
    by (metis id_take_nth_drop)
  with assms have "consume (genfrom_queue q) ch =
      ((take k (ch q), Ended), (genfrom_queue q)\<lparr>finished := True\<rparr>,
       ch(chan (genfrom_queue q) := drop (Suc k) (ch q)))"
    by (intro consume_upto_sentinel) (simp_all add: genfrom_queue_def)
  then show ?thesis
    by (simp add: genfrom_queue_def)
qed

text \<open>
  Claim C9. \<^verbatim>\<open>genfrom_queue\<close> recognises the end of the stream by identity with the
  \<^verbatim>\<open>StopIteration\<close> class object. For every queue that holds that object at position
  \<open>k\<close>, with no earlier occurrence, a consumer of the generator receives exactly the
  first \<open>k\<close> entries and then the end of the sequence, and the entries behind it stay in
  the queue. This is so whatever the producer meant by that entry: when an upstream
  sequence has the object as its element number \<open>k\<close>, the consumer of the queue that
  \<^verbatim>\<open>sendto_queue\<close> fills from it receives the first \<open>k\<close> elements only.
\<close>

theorem in_band_sentinel:
  "(k < length (ch q) \<and> ch q ! k = StopIteration \<and> StopIteration \<notin> set (take k (ch q)) \<longrightarrow>
      consume (genfrom_queue q) ch
        = ((take k (ch q), Ended), \<lparr>chan = q, finished = True\<rparr>, ch(q := drop (Suc k) (ch q))))
   \<and> (k < length xs \<and> xs ! k = StopIteration \<and> StopIteration \<notin> set (take k xs) \<longrightarrow>
      fst (consume (genfrom_queue q) (snd (sendto_queue (finite_seq xs) q (ch(q := [])))))
        = (take k xs, Ended))"
proof (intro conjI impI)
  assume "k < length (ch q) \<and> ch q ! k = StopIteration \<and> StopIteration \<notin> set (take k (ch q))"
  then show "consume (genfrom_queue q) ch
        = ((take k (ch q), Ended), \<lparr>chan = q, finished = True\<rparr>, ch(q := drop (Suc k) (ch q)))"
    by (intro consume_first_sentinel) simp_all
next
  assume h: "k < length xs \<and> xs ! k = StopIteration \<and> StopIteration \<notin> set (take k xs)"
  let ?ch = "ch(q := xs @ [StopIteration])"
  have "consume (genfrom_queue q) ?ch
        = ((take k (?ch q), Ended), \<lparr>chan = q, finished = True\<rparr>, ?ch(q := drop (Suc k) (?ch q)))"
    by (rule consume_first_sentinel) (use h in \<open>simp_all add: nth_append\<close>)
  then show "fst (consume (genfrom_queue q) (snd (sendto_queue (finite_seq xs) q (ch(q := [])))))
        = (take k xs, Ended)"
    using h by (simp add: sendto_queue_exhausted)
qed

theorem in_band_sentinel_witness:
  "consume (genfrom_queue 0) ((\<lambda>_. [])(0 := [Val (1::nat), StopIteration, Val 2, StopIteration]))
     = (([Val 1], Ended), \<lparr>chan = 0, finished = True\<rparr>, (\<lambda>_. [])(0 := [Val 2, StopIteration]))
   \<and> fst (consume (genfrom_queue 0)
        (snd (sendto_queue (finite_seq [Val (1::nat), StopIteration, Val 2]) 0 (\<lambda>_. []))))
     = ([Val 1], Ended)"
  using in_band_sentinel [of 1 "(\<lambda>_. [])(0 := [Val (1::nat), StopIteration, Val 2, StopIteration])" 0
          "[Val (1::nat), StopIteration, Val 2]"]
  by (simp add: sendto_queue_exhausted)

subsection \<open>Entries behind a sentinel\<close>

text \<open>
  Claim C10. When a \<^verbatim>\<open>genfrom_queue\<close> generator ends on a sentinel, the entries
  enqueued behind that sentinel stay in the queue, and nothing else does. A second
  \<^verbatim>\<open>genfrom_queue\<close> generator over the same queue then yields exactly those entries,
  in FIFO order, up to the next sentinel, which it consumes (and if no further sentinel
  is there, it yields all of them and then waits).
\<close>

theorem leftover_entries:
  "StopIteration \<notin> set pre \<and> ch q = pre @ StopIteration # rest \<longrightarrow>
     fst (consume (genfrom_queue q) ch) = (pre, Ended)
   \<and> snd (snd (consume (genfrom_queue q) ch)) = ch(q := rest)
   \<and> (\<forall>mid post. StopIteration \<notin> set mid \<and> rest = mid @ StopIteration # post \<longrightarrow>
        fst (consume (genfrom_queue q) (ch(q := rest))) = (mid, Ended)
      \<and> snd (snd (consume (genfrom_queue q) (ch(q := rest)))) = ch(q := post))
   \<and> (StopIteration \<notin> set rest \<longrightarrow>
        fst (consume (genfrom_queue q) (ch(q := rest))) = (rest, Blocks))"
proof (intro impI)
  assume h: "StopIteration \<notin> set pre \<and> ch q = pre @ StopIteration # rest"
  have live: "\<not> finished (genfrom_queue q)" and chan: "chan (genfrom_queue q) = q"
    by (simp_all add: genfrom_queue_def)
  have first: "consume (genfrom_queue q) ch =
      ((pre, Ended), (genfrom_queue q)\<lparr>finished := True\<rparr>, ch(q := rest))"
    using consume_upto_sentinel [of pre "genfrom_queue q" ch rest] h live chan by simp
  have second: "consume (genfrom_queue q) (ch(q := rest)) =
      ((mid, Ended), (genfrom_queue q)\<lparr>finished := True\<rparr>, ch(q := post))"
    if "StopIteration \<notin> set mid" "rest = mid @ StopIteration # post" for mid post
    using consume_upto_sentinel [of mid "genfrom_queue q" "ch(q := rest)" post] that live chan
    by simp
  have third: "consume (genfrom_queue q) (ch(q := rest)) =
      ((rest, Blocks), genfrom_queue q, ch(q := []))"
    if "StopIteration \<notin> set rest"
    using consume_no_sentinel [of rest "genfrom_queue q" "ch(q := rest)"] that live chan
    by simp
  show "fst (consume (genfrom_queue q) ch) = (pre, Ended)
   \<and> snd (snd (consume (genfrom_queue q) ch)) = ch(q := rest)
   \<and> (\<forall>mid post. StopIteration \<notin> set mid \<and> rest = mid @ StopIteration # post \<longrightarrow>
        fst (consume (genfrom_queue q) (ch(q := rest))) = (mid, Ended)
      \<and> snd (snd (consume (genfrom_queue q) (ch(q := rest)))) = ch(q := post))
   \<and> (StopIteration \<notin> set rest \<longrightarrow>
        fst (consume (genfrom_queue q) (ch(q := rest))) = (rest, Blocks))"
    using first second third by simp
qed

theorem leftover_entries_witness:
  "fst (consume (genfrom_queue 0)
         ((\<lambda>_. [])(0 := [Val (1::nat), StopIteration, Val 2, Val 3, StopIteration, Val 4])))
     = ([Val 1], Ended)
   \<and> snd (snd (consume (genfrom_queue 0)
         ((\<lambda>_. [])(0 := [Val (1::nat), StopIteration, Val 2, Val 3, StopIteration, Val 4]))))
     = (\<lambda>_. [])(0 := [Val 2, Val 3, StopIteration, Val 4])
   \<and> fst (consume (genfrom_queue 0) ((\<lambda>_. [])(0 := [Val (2::nat), Val 3, StopIteration, Val 4])))
     = ([Val 2, Val 3], Ended)
   \<and> snd (snd (consume (genfrom_queue 0) ((\<lambda>_. [])(0 := [Val (2::nat), Val 3, StopIteration, Val 4]))))
     = (\<lambda>_. [])(0 := [Val 4])"
  using leftover_entries [of "[Val (1::nat)]"
          "(\<lambda>_. [])(0 := [Val (1::nat), StopIteration, Val 2, Val 3, StopIteration, Val 4])" 0
          "[Val 2, Val 3, StopIteration, Val 4]"]
  by (auto dest: spec [of _ "[Val 2, Val 3]"])

subsection \<open>An upstream sequence that raises\<close>

text \<open>
  Claim C4, as stated: when the upstream sequence raises partway through, the pump still
  enqueues the sentinel. It does not: \<^verbatim>\<open>sendto_queue\<close> has no handler around its loop.
  With an upstream that yields \<open>1\<close> and then raises, the queue receives \<open>1\<close> and no
  sentinel, the call ends with the exception, and a consumer of the queue gets \<open>1\<close> and
  then waits for ever.
\<close>

theorem upstream_failure_no_sentinel:
  "sendto_queue \<lparr>items = [Val (1::nat)], ending = Raises ''boom''\<rparr> 0 (\<lambda>_. [])
     = (Inl ''boom'', (\<lambda>_. [])(0 := [Val 1]))
   \<and> StopIteration \<notin> set (snd (sendto_queue \<lparr>items = [Val (1::nat)], ending = Raises ''boom''\<rparr> 0 (\<lambda>_. [])) 0)
   \<and> fst (consume (genfrom_queue 0)
            (snd (sendto_queue \<lparr>items = [Val (1::nat)], ending = Raises ''boom''\<rparr> 0 (\<lambda>_. []))))
     = ([Val 1], Blocks)"
  by (simp add: sendto_queue_def put_def get_def genfrom_queue_def genfrom_queue_next_def
        consume.simps)

text \<open>
  Claim C4, amended. When the upstream sequence raises partway through,
  \<^verbatim>\<open>sendto_queue\<close> has enqueued exactly the items produced before the failure, in order,
  and ends with the exception without enqueueing the sentinel or anything else: the error
  is not delivered across the queue. A consumer of a queue fed this way alone receives
  those items and is then left waiting.
\<close>

theorem upstream_failure:
  "sendto_queue \<lparr>items = xs, ending = Raises err\<rparr> q ch = (Inl err, ch(q := ch q @ xs))
   \<and> (StopIteration \<notin> set xs \<and> ch q = [] \<longrightarrow>
        fst (consume (genfrom_queue q) (snd (sendto_queue \<lparr>items = xs, ending = Raises err\<rparr> q ch)))
          = (xs, Blocks))"
  using consume_no_sentinel [of xs "genfrom_queue q" "ch(q := xs)"]
  by (simp add: sendto_queue_raises genfrom_queue_def)

theorem upstream_failure_witness:
  "sendto_queue \<lparr>items = [Val (1::nat), Val 2], ending = Raises ''IOError''\<rparr> 3 (\<lambda>_. [])
     = (Inl ''IOError'', (\<lambda>_. [])(3 := [Val 1, Val 2]))
   \<and> fst (consume (genfrom_queue 3)
        (snd (sendto_queue \<lparr>items = [Val (1::nat), Val 2], ending = Raises ''IOError''\<rparr> 3 (\<lambda>_. []))))
          = ([Val 1, Val 2], Blocks)"
  using upstream_failure [of "[Val (1::nat), Val 2]" "''IOError''" 3 "\<lambda>_. []"]
  by (simp add: sendto_queue_raises)

subsection \<open>The threads of multiplex\<close>

text \<open>
  \<^verbatim>\<open>multiplex\<close> starts one thread per source, all on the one queue, and makes one
  generator per source, all on that queue.
\<close>

lemma multiplex_eq:
  "multiplex q sources ch =
     ((map (\<lambda>s. Thread_start s q) sources, replicate (length sources) (genfrom_queue q)),
      ch(q := []))"
proof -
  have "fold (\<lambda>s (thrs, consumers).
                (thrs @ [Thread_start s q], consumers @ [genfrom_queue q])) sources (ts, cs)
        = (ts @ map (\<lambda>s. Thread_start s q) sources,
           cs @ replicate (length sources) (genfrom_queue q))" for ts cs
    by (induction sources arbitrary: ts cs) (simp_all add: replicate_append_same)
  then show ?thesis
    by (simp add: multiplex_def gen_cat_def)
qed

lemma thread_step_shape:
  assumes "\<forall>t\<in>set thrs. fst t = q"
  shows "thread_step i (thrs, ch) = (thrs, ch) \<or>
         (\<exists>pre p post. thrs = pre @ (q, p) # post \<and> length pre = i \<and>
            thread_step i (thrs, ch) =
              (pre @ (q, fst (pump_step q p ch)) # post, snd (pump_step q p ch)))"
proof (cases "i < length thrs")
  case False
  then show ?thesis by (simp add: thread_step_def)
next
  case True
  obtain p where p: "thrs ! i = (q, p)"
    using assms True by (metis nth_mem prod.collapse)
  have "thrs = take i thrs @ (q, p) # drop (Suc i) thrs"
    using True p by (metis id_take_nth_drop)
  moreover have "thread_step i (thrs, ch) =
      (take i thrs @ (q, fst (pump_step q p ch)) # drop (Suc i) thrs, snd (pump_step q p ch))"
    using True p by (simp add: thread_step_def upd_conv_take_nth_drop split: prod.splits)
  moreover have "length (take i thrs) = i"
    using True by simp
  ultimately show ?thesis by blast
qed

lemma run_threads_invariant:
  assumes "I thrs ch" and "\<forall>t\<in>set thrs. fst t = q"
    and step: "\<And>pre p post c. I (pre @ (q, p) # post) c \<Longrightarrow>
                 I (pre @ (q, fst (pump_step q p c)) # post) (snd (pump_step q p c))"
  shows "I (fst (run_threads sched (thrs, ch))) (snd (run_threads sched (thrs, ch)))"
  using assms(1,2)
proof (induction sched arbitrary: thrs ch)
  case Nil
  then show ?case by simp
next
  case (Cons i sched)
  from thread_step_shape [OF Cons.prems(2), of i ch]
  show ?case
  proof
    assume "thread_step i (thrs, ch) = (thrs, ch)"
    with Cons show ?thesis by simp
  next
    assume "\<exists>pre p post. thrs = pre @ (q, p) # post \<and> length pre = i \<and>
            thread_step i (thrs, ch) =
              (pre @ (q, fst (pump_step q p ch)) # post, snd (pump_step q p ch))"
    then obtain pre p post where d: "thrs = pre @ (q, p) # post"
      and s: "thread_step i (thrs, ch) =
              (pre @ (q, fst (pump_step q p ch)) # post, snd (pump_step q p ch))"
      by blast
    have "I (pre @ (q, fst (pump_step q p ch)) # post) (snd (pump_step q p ch))"
      using step Cons.prems(1) d by simp
    moreover have "\<forall>t\<in>set (pre @ (q, fst (pump_step q p ch)) # post). fst t = q"
      using Cons.prems(2) d by auto
    ultimately show ?thesis
      using Cons.IH s by simp
  qed
qed

lemma pump_step_emits:
  "\<exists>em. snd (pump_step q p ch) = ch(q := ch q @ em) \<and> pending p = em @ pending (fst (pump_step q p ch))"
proof (cases "(q, p, ch)" rule: pump_step.cases)
  case (1 q x xs e ch)
  then show ?thesis by (cases e) (auto simp: put_def)
next
  case (2 q ch)
  then show ?thesis by (auto simp: put_def)
qed auto

lemma run_threads_on:
  assumes "\<forall>t\<in>set thrs. fst t = q"
  shows "length (fst (run_threads sched (thrs, ch))) = length thrs \<and>
         (\<forall>t\<in>set (fst (run_threads sched (thrs, ch))). fst t = q)"
  by (rule run_threads_invariant [where I = "\<lambda>ts c. length ts = length thrs \<and> (\<forall>t\<in>set ts. fst t = q)" and q = q])
     (use assms in auto)

lemma run_threads_tally:
  fixes F :: "'a pyobj list \<Rightarrow> nat"
  assumes hom: "\<And>xs ys. F (xs @ ys) = F xs + F ys"
    and on: "\<forall>t\<in>set thrs. fst t = q"
  shows "F (snd (run_threads sched (thrs, ch)) q)
           + sum_list (map (\<lambda>t. F (pending (snd t))) (fst (run_threads sched (thrs, ch))))
         = F (ch q) + sum_list (map (\<lambda>t. F (pending (snd t))) thrs)"
proof (rule run_threads_invariant
    [where I = "\<lambda>ts c. F (c q) + sum_list (map (\<lambda>t. F (pending (snd t))) ts)
                      = F (ch q) + sum_list (map (\<lambda>t. F (pending (snd t))) thrs)" and q = q])
  fix pre post and p :: "'a pump" and c :: "'a chans"
  assume inv: "F (c q) + sum_list (map (\<lambda>t. F (pending (snd t))) (pre @ (q, p) # post))
                 = F (ch q) + sum_list (map (\<lambda>t. F (pending (snd t))) thrs)"
  obtain em where "snd (pump_step q p c) = c(q := c q @ em)"
    "pending p = em @ pending (fst (pump_step q p c))"
    using pump_step_emits by blast
  with inv show "F (snd (pump_step q p c) q)
      + sum_list (map (\<lambda>t. F (pending (snd t))) (pre @ (q, fst (pump_step q p c)) # post))
      = F (ch q) + sum_list (map (\<lambda>t. F (pending (snd t))) thrs)"
    by (simp add: hom)
qed (use on in simp_all)


lemma run_threads_filter:
  fixes thrs :: "'a thread list"
  assumes i: "i < length thrs"
    and others: "\<forall>j<length thrs. j \<noteq> i \<longrightarrow> (\<forall>x\<in>set (pending (snd (thrs ! j))). \<not> P x)"
    and on: "\<forall>t\<in>set thrs. fst t = q"
  shows "filter P (snd (run_threads sched (thrs, ch)) q)
           @ filter P (pending (snd (fst (run_threads sched (thrs, ch)) ! i)))
         = filter P (ch q) @ filter P (pending (snd (thrs ! i)))"
proof -
  let ?I = "\<lambda>ts c. length ts = length thrs \<and>
      filter P (c q) @ filter P (pending (snd (ts ! i)))
        = filter P (ch q) @ filter P (pending (snd (thrs ! i))) \<and>
      (\<forall>j<length ts. j \<noteq> i \<longrightarrow> (\<forall>x\<in>set (pending (snd (ts ! j))). \<not> P x))"
  have move: "?I (ts[k := (q, p')]) (c(q := c q @ em))"
    if "k < length ts" "pending (snd (ts ! k)) = em @ pending p'" "?I ts c"
    for ts :: "'a thread list" and k p' em and c :: "'a chans"
  proof (cases "k = i")
    case True
    with that show ?thesis
      by (simp add: nth_list_update)
  next
    case False
    from that False have no: "\<forall>x\<in>set (pending (snd (ts ! k))). \<not> P x"
      by metis
    then have "filter P em = []" and "\<forall>x\<in>set (pending p'). \<not> P x"
      using that(2) by (auto simp: filter_empty_conv)
    with that False show ?thesis
      by (simp add: nth_list_update)
  qed
  have "?I (fst (run_threads sched (thrs, ch))) (snd (run_threads sched (thrs, ch)))"
  proof (rule run_threads_invariant [where I = ?I and q = q])
    show "?I thrs ch" using others by simp
    show "\<forall>t\<in>set thrs. fst t = q" by (rule on)
  next
    fix pre post and p :: "'a pump" and c :: "'a chans"
    let ?ts = "pre @ (q, p) # post"
    let ?p' = "fst (pump_step q p c)"
    assume inv: "?I ?ts c"
    obtain em where em: "snd (pump_step q p c) = c(q := c q @ em)" "pending p = em @ pending ?p'"
      using pump_step_emits by blast
    have "?I (?ts[length pre := (q, ?p')]) (c(q := c q @ em))"
      by (rule move) (use em inv in simp_all)
    then show "?I (pre @ (q, ?p') # post) (snd (pump_step q p c))"
      unfolding em(1) by simp
  qed
  then show ?thesis by blast
qed

lemma run_threads_last:
  fixes thrs :: "'a thread list"
  assumes ret: "\<forall>t\<in>set thrs. returning (snd t)"
    and on: "\<forall>t\<in>set thrs. fst t = q"
    and q0: "ch q = []"
  shows "(\<forall>t\<in>set (fst (run_threads sched (thrs, ch))). returning (snd t)) \<and>
         (snd (run_threads sched (thrs, ch)) q = [] \<or>
          last (snd (run_threads sched (thrs, ch)) q) = StopIteration \<or>
          (\<exists>t\<in>set (fst (run_threads sched (thrs, ch))). \<not> terminated (snd t)))"
proof (rule run_threads_invariant
    [where I = "\<lambda>ts c. (\<forall>t\<in>set ts. returning (snd t)) \<and>
                  (c q = [] \<or> last (c q) = StopIteration \<or> (\<exists>t\<in>set ts. \<not> terminated (snd t)))"
       and q = q])
  fix pre post and p :: "'a pump" and c :: "'a chans"
  assume inv: "(\<forall>t\<in>set (pre @ (q, p) # post). returning (snd t)) \<and>
     (c q = [] \<or> last (c q) = StopIteration \<or> (\<exists>t\<in>set (pre @ (q, p) # post). \<not> terminated (snd t)))"
  show "(\<forall>t\<in>set (pre @ (q, fst (pump_step q p c)) # post). returning (snd t)) \<and>
     (snd (pump_step q p c) q = [] \<or> last (snd (pump_step q p c) q) = StopIteration \<or>
      (\<exists>t\<in>set (pre @ (q, fst (pump_step q p c)) # post). \<not> terminated (snd t)))"
  proof (cases "(q, p, c)" rule: pump_step.cases)
    case (1 q' x xs e c')
    with inv show ?thesis by (auto simp: put_def)
  next
    case (2 q' c')
    with inv show ?thesis by (auto simp: put_def)
  next
    case (3 q' err c')
    with inv show ?thesis by auto
  next
    case (4 q' c')
    with inv show ?thesis by auto
  next
    case (5 q' err c')
    with inv show ?thesis by auto
  qed
qed (use assms in simp_all)

lemma terminated_pending: "terminated p \<Longrightarrow> pending p = []"
  by (cases p) simp_all

lemma gen_cat_list_End:
  "genfrom_queue_next a ch = (End, a', ch') \<Longrightarrow> gen_cat_list (a # as) ch = gen_cat_list as ch'"
  by (subst gen_cat_list.simps, subst (2) gen_cat_list.simps) simp

lemma gen_cat_list_shared:
  "length (filter (\<lambda>x. x = StopIteration) qs) = n \<Longrightarrow> qs = [] \<or> last qs = StopIteration \<Longrightarrow>
   ch q = qs \<Longrightarrow>
   gen_cat_list (replicate n (genfrom_queue q)) ch
     = ((filter (\<lambda>x. x \<noteq> StopIteration) qs, Ended), [], ch(q := []))"
proof (induction qs arbitrary: n ch)
  case Nil
  then have "ch(q := []) = ch" by auto
  with Nil show ?case
    by (subst gen_cat_list.simps) simp
next
  case (Cons x qs)
  let ?a = "genfrom_queue q"
  show ?case
  proof (cases "x = StopIteration")
    case True
    with Cons.prems obtain m where n: "n = Suc m"
      and m: "length (filter (\<lambda>x. x = StopIteration) qs) = m"
      by auto
    have l: "qs = [] \<or> last qs = StopIteration"
      using Cons.prems(2) by (auto split: if_splits)
    have "genfrom_queue_next ?a ch = (End, ?a\<lparr>finished := True\<rparr>, ch(q := qs))"
      using Cons.prems(3) True by (simp add: genfrom_queue_next_def genfrom_queue_def get_def)
    then have "gen_cat_list (?a # replicate m ?a) ch = gen_cat_list (replicate m ?a) (ch(q := qs))"
      by (rule gen_cat_list_End)
    moreover have "gen_cat_list (replicate m ?a) (ch(q := qs))
        = ((filter (\<lambda>x. x \<noteq> StopIteration) qs, Ended), [], (ch(q := qs))(q := []))"
      by (rule Cons.IH [OF m l]) simp
    ultimately have "gen_cat_list (replicate (Suc m) ?a) ch
        = ((filter (\<lambda>x. x \<noteq> StopIteration) qs, Ended), [], ch(q := []))"
      by simp
    then show ?thesis
      unfolding n using True by (simp add: fun_eq_iff)
  next
    case False
    with Cons.prems(2) have l: "qs \<noteq> []" "last qs = StopIteration"
      by (auto split: if_splits)
    then have "StopIteration \<in> set qs"
      by (metis last_in_set)
    then have "filter (\<lambda>x. x = StopIteration) qs \<noteq> []"
      by (simp add: filter_empty_conv)
    with Cons.prems(1) False obtain m where n: "n = Suc m"
      by (cases n) auto
    have c: "length (filter (\<lambda>x. x = StopIteration) qs) = n"
      using Cons.prems(1) False by simp
    have "genfrom_queue_next ?a ch = (Yield x, ?a, ch(q := qs))"
      using Cons.prems(3) False by (simp add: genfrom_queue_next_def genfrom_queue_def get_def)
    then have nxt: "gen_cat_next (replicate n ?a) ch = (Yield x, replicate n ?a, ch(q := qs))"
      unfolding n by (simp add: replicate_append_same)
    have "gen_cat_list (replicate n ?a) (ch(q := qs))
        = ((filter (\<lambda>x. x \<noteq> StopIteration) qs, Ended), [], (ch(q := qs))(q := []))"
      using l by (intro Cons.IH [OF c]) simp_all
    then show ?thesis
      using False by (subst gen_cat_list.simps) (simp add: nxt)
  qed
qed

text \<open>Each step of the schedule is one step of the thread it names.\<close>

lemma terminated_steps_left: "terminated p \<longleftrightarrow> steps_left p = 0"
  by (cases p) simp_all

lemma pump_step_steps_left: "steps_left (fst (pump_step q p ch)) = steps_left p - 1"
  by (cases "(q, p, ch)" rule: pump_step.cases) simp_all

lemma thread_step_steps_left:
  "length (fst (thread_step j (thrs, ch))) = length thrs \<and>
   (\<forall>i<length thrs. steps_left (snd (fst (thread_step j (thrs, ch)) ! i))
       = steps_left (snd (thrs ! i)) - (if i = j then 1 else 0))"
proof (cases "j < length thrs")
  case False
  then show ?thesis by (simp add: thread_step_def)
next
  case True
  obtain q p where t: "thrs ! j = (q, p)"
    by (cases "thrs ! j")
  have "fst (thread_step j (thrs, ch)) = thrs[j := (q, fst (pump_step q p ch))]"
    using True t by (simp add: thread_step_def split: prod.splits)
  then show ?thesis
    using True t by (simp add: nth_list_update pump_step_steps_left)
qed

lemma run_threads_steps_left:
  "length (fst (run_threads sched (thrs, ch))) = length thrs \<and>
   (\<forall>i<length thrs. steps_left (snd (fst (run_threads sched (thrs, ch)) ! i))
       = steps_left (snd (thrs ! i)) - count_list sched i)"
proof (induction sched arbitrary: thrs ch)
  case Nil
  then show ?case by simp
next
  case (Cons j sched)
  obtain thrs' ch' where s: "thread_step j (thrs, ch) = (thrs', ch')"
    by (cases "thread_step j (thrs, ch)")
  from thread_step_steps_left [of j thrs ch] s
  have len: "length thrs' = length thrs"
    and st: "\<forall>i<length thrs. steps_left (snd (thrs' ! i))
                = steps_left (snd (thrs ! i)) - (if i = j then 1 else 0)"
    by simp_all
  from Cons.IH [of thrs' ch'] len st s show ?case
    by auto
qed

text \<open>
  A pull that returns (with an item or with the end) returns the same, and leaves the
  generators in the same state, when further entries are enqueued behind those it read:
  what the consumer obtains depends on the order of arrival of the entries only, not on
  the moments at which it pulls.
\<close>

lemma genfrom_queue_next_put:
  assumes "genfrom_queue_next a ch = (r, a', ch')" and "r \<noteq> Blocked"
  shows "genfrom_queue_next a (put q y ch) = (r, a', put q y ch')"
proof (cases "finished a")
  case True
  with assms show ?thesis by (simp add: genfrom_queue_next_def)
next
  case False
  show ?thesis
  proof (cases "ch (chan a)")
    case Nil
    with False assms show ?thesis by (simp add: genfrom_queue_next_def get_def)
  next
    case (Cons x rest)
    have "(put q y ch)(chan a := rest @ [y]) = put q y (ch(chan a := rest))" if "q = chan a"
      using that by (simp add: put_def)
    moreover have "(put q y ch)(chan a := rest) = put q y (ch(chan a := rest))" if "q \<noteq> chan a"
      using that by (auto simp: put_def)
    ultimately show ?thesis
      using False Cons assms
      by (cases "q = chan a") (auto simp: genfrom_queue_next_def get_def put_def split: if_splits)
  qed
qed

lemma gen_cat_next_put:
  "gen_cat_next as ch = (r, as', ch') \<Longrightarrow> r \<noteq> Blocked \<Longrightarrow>
     gen_cat_next as (put q y ch) = (r, as', put q y ch')"
proof (induction as arbitrary: ch)
  case Nil
  then show ?case by auto
next
  case (Cons a as)
  obtain r1 a1 ch1 where g: "genfrom_queue_next a ch = (r1, a1, ch1)"
    by (cases "genfrom_queue_next a ch")
  show ?case
  proof (cases r1)
    case (Yield x)
    with g Cons.prems genfrom_queue_next_put [OF g, of q y] show ?thesis by auto
  next
    case End
    with g Cons.prems have "gen_cat_next as ch1 = (r, as', ch')" by simp
    from Cons.IH [OF this Cons.prems(2)] End g genfrom_queue_next_put [OF g, of q y]
    show ?thesis by simp
  next
    case Blocked
    with g Cons.prems show ?thesis by simp
  qed
qed

text \<open>
  Hence the moments at which the consumer pulls do not matter. In every interleaving
  of pulls of the consumer with steps of the threads, what the consumer receives in all
  is what \<open>multiplex_list\<close> gives for the schedule made of the steps of the threads.
\<close>

lemma run_threads_appends:
  fixes thrs :: "'a thread list"
  assumes "\<forall>t\<in>set thrs. fst t = q"
  shows "\<exists>thrs' em. \<forall>ch :: 'a chans. run_threads sched (thrs, ch) = (thrs', ch(q := ch q @ em))"
  using assms
proof (induction sched arbitrary: thrs)
  case Nil
  have "\<forall>ch :: 'a chans. run_threads [] (thrs, ch) = (thrs, ch(q := ch q @ []))"
    by simp
  then show ?case by blast
next
  case (Cons i sched)
  have "\<exists>thrs1 em1. (\<forall>t\<in>set thrs1. fst t = q) \<and>
          (\<forall>ch :: 'a chans. thread_step i (thrs, ch) = (thrs1, ch(q := ch q @ em1)))"
  proof (cases "i < length thrs")
    case False
    then have "\<forall>ch :: 'a chans. thread_step i (thrs, ch) = (thrs, ch(q := ch q @ []))"
      by (simp add: thread_step_def)
    with Cons.prems show ?thesis by blast
  next
    case True
    then obtain p where p: "thrs ! i = (q, p)"
      using Cons.prems by (metis nth_mem prod.collapse)
    have "\<exists>p' em. \<forall>ch :: 'a chans. pump_step q p ch = (p', ch(q := ch q @ em))"
    proof (cases p)
      case (Pumping xs e)
      show ?thesis
      proof (cases xs)
        case Nil
        show ?thesis
        proof (cases e)
          case Exhausted
          with Pumping Nil have "\<forall>ch :: 'a chans.
              pump_step q p ch = (Returned, ch(q := ch q @ [StopIteration]))"
            by (simp add: put_def)
          then show ?thesis by blast
        next
          case (Raises err)
          with Pumping Nil have "\<forall>ch :: 'a chans. pump_step q p ch = (Died err, ch(q := ch q @ []))"
            by simp
          then show ?thesis by blast
        qed
      next
        case (Cons x rest)
        with Pumping have "\<forall>ch :: 'a chans. pump_step q p ch = (Pumping rest e, ch(q := ch q @ [x]))"
          by (simp add: put_def)
        then show ?thesis by blast
      qed
    next
      case Returned
      then have "\<forall>ch :: 'a chans. pump_step q p ch = (Returned, ch(q := ch q @ []))"
        by simp
      then show ?thesis by blast
    next
      case (Died err)
      then have "\<forall>ch :: 'a chans. pump_step q p ch = (Died err, ch(q := ch q @ []))"
        by simp
      then show ?thesis by blast
    qed
    then obtain p' em where s: "\<forall>ch :: 'a chans. pump_step q p ch = (p', ch(q := ch q @ em))"
      by blast
    have "\<forall>ch :: 'a chans. thread_step i (thrs, ch) = (thrs[i := (q, p')], ch(q := ch q @ em))"
      using True p s by (simp add: thread_step_def)
    moreover have "\<forall>t\<in>set (thrs[i := (q, p')]). fst t = q"
      using Cons.prems by (auto dest!: set_update_subset_insert [THEN subsetD])
    ultimately show ?thesis by blast
  qed
  then obtain thrs1 em1 where on1: "\<forall>t\<in>set thrs1. fst t = q"
    and s1: "\<forall>ch :: 'a chans. thread_step i (thrs, ch) = (thrs1, ch(q := ch q @ em1))"
    by blast
  from Cons.IH [OF on1] obtain thrs' em where
    r: "\<forall>ch :: 'a chans. run_threads sched (thrs1, ch) = (thrs', ch(q := ch q @ em))"
    by blast
  have "\<forall>ch :: 'a chans. run_threads (i # sched) (thrs, ch) = (thrs', ch(q := ch q @ (em1 @ em)))"
    using s1 r by simp
  then show ?case by blast
qed

lemma put_arrivals: "(put q y ch)(q := put q y ch q @ em) = ch(q := ch q @ y # em)"
  by (rule ext) (simp add: put_def)

lemma gen_cat_next_arrivals:
  assumes "gen_cat_next as ch = (r, as', ch')" and "r \<noteq> Blocked"
  shows "gen_cat_next as (ch(q := ch q @ em)) = (r, as', ch'(q := ch' q @ em))"
  using assms
proof (induction em arbitrary: ch ch')
  case Nil
  then show ?case by simp
next
  case (Cons y em)
  from gen_cat_next_put [OF Cons.prems, of q y]
  have "gen_cat_next as (put q y ch) = (r, as', put q y ch')" .
  from Cons.IH [OF this Cons.prems(2)] show ?case
    unfolding put_arrivals .
qed

lemma genfrom_queue_next_arrivals:
  assumes "genfrom_queue_next a ch = (r, a', ch')" and "r \<noteq> Blocked"
  shows "genfrom_queue_next a (ch(q := ch q @ em)) = (r, a', ch'(q := ch' q @ em))"
  using assms
proof (induction em arbitrary: ch ch')
  case Nil
  then show ?case by simp
next
  case (Cons y em)
  from genfrom_queue_next_put [OF Cons.prems, of q y]
  have "genfrom_queue_next a (put q y ch) = (r, a', put q y ch')" .
  from Cons.IH [OF this Cons.prems(2)] show ?case
    unfolding put_arrivals .
qed

lemma gen_cat_next_blocked:
  "gen_cat_next as ch = (Blocked, as', ch') \<Longrightarrow>
     gen_cat_list as (ch(q := ch q @ em)) = gen_cat_list as' (ch'(q := ch' q @ em))"
proof (induction as arbitrary: ch)
  case Nil
  then show ?case by simp
next
  case (Cons a as)
  obtain r1 a1 ch1 where g: "genfrom_queue_next a ch = (r1, a1, ch1)"
    by (cases "genfrom_queue_next a ch")
  show ?case
  proof (cases r1)
    case (Yield x)
    with g Cons.prems show ?thesis by simp
  next
    case End
    with g Cons.prems have "gen_cat_next as ch1 = (Blocked, as', ch')" by simp
    from Cons.IH [OF this]
    have "gen_cat_list as (ch1(q := ch1 q @ em)) = gen_cat_list as' (ch'(q := ch' q @ em))" .
    moreover have "genfrom_queue_next a (ch(q := ch q @ em)) = (End, a1, ch1(q := ch1 q @ em))"
      using genfrom_queue_next_arrivals [OF g, of q em] End by simp
    then have "gen_cat_list (a # as) (ch(q := ch q @ em)) = gen_cat_list as (ch1(q := ch1 q @ em))"
      by (rule gen_cat_list_End)
    ultimately show ?thesis
      by (simp only:)
  next
    case Blocked
    with g have "a1 = a" "ch1 = ch"
      by (auto simp: genfrom_queue_next_def get_def split: if_splits list.splits)
    with g Blocked Cons.prems have "as' = a # as" "ch' = ch"
      by simp_all
    then show ?thesis
      by (simp only:)
  qed
qed

lemma pull_then_arrivals:
  assumes "\<not> ended s"
  shows "in_all ((act Pull s)\<lparr>store := (store (act Pull s))(q := store (act Pull s) q @ em)\<rparr>)
       = in_all (s\<lparr>store := (store s)(q := store s q @ em)\<rparr>)"
proof -
  obtain r as' ch' where g: "gen_cat_next (merged s) (store s) = (r, as', ch')"
    by (cases "gen_cat_next (merged s) (store s)")
  show ?thesis
  proof (cases r)
    case (Yield x)
    from gen_cat_next_arrivals [OF g, of q em] Yield
    have "gen_cat_next (merged s) ((store s)(q := store s q @ em))
            = (Yield x, as', ch'(q := ch' q @ em))"
      by simp
    then have "fst (gen_cat_list (merged s) ((store s)(q := store s q @ em)))
        = (x # fst (fst (gen_cat_list as' (ch'(q := ch' q @ em)))),
           snd (fst (gen_cat_list as' (ch'(q := ch' q @ em)))))"
      by (subst gen_cat_list.simps) (simp add: case_prod_beta)
    with assms g Yield show ?thesis
      by (simp add: in_all_def case_prod_beta)
  next
    case End
    from gen_cat_next_arrivals [OF g, of q em] End
    have "gen_cat_next (merged s) ((store s)(q := store s q @ em))
            = (End, as', ch'(q := ch' q @ em))"
      by simp
    then have "fst (gen_cat_list (merged s) ((store s)(q := store s q @ em))) = ([], Ended)"
      by (subst gen_cat_list.simps) simp
    with assms g End show ?thesis
      by (simp add: in_all_def)
  next
    case Blocked
    with g gen_cat_next_blocked [of "merged s" "store s" as' ch' q em]
    have "gen_cat_list (merged s) ((store s)(q := store s q @ em))
            = gen_cat_list as' (ch'(q := ch' q @ em))"
      by simp
    with assms g Blocked show ?thesis
      by (simp add: in_all_def)
  qed
qed

lemma act_Pull_threads: "threads (act Pull s) = threads s"
  by (simp split: prod.splits pull.splits)

lemma interleaving:
  assumes "\<forall>t\<in>set (threads s). fst t = q"
  shows "in_all (run_system acts s)
       = in_all (s\<lparr>threads := fst (run_threads (steps_of acts) (threads s, store s)),
                  store := snd (run_threads (steps_of acts) (threads s, store s))\<rparr>)"
  using assms
proof (induction acts arbitrary: s)
  case Nil
  then show ?case by simp
next
  case (Cons a acts)
  show ?case
  proof (cases a)
    case (Step i)
    obtain thrs' ch' where t: "thread_step i (threads s, store s) = (thrs', ch')"
      by (cases "thread_step i (threads s, store s)")
    have "\<forall>t\<in>set thrs'. fst t = q"
      using run_threads_on [OF Cons.prems, of "[i]" "store s"] t by simp
    then have "in_all (run_system acts (act a s))
       = in_all ((act a s)\<lparr>threads := fst (run_threads (steps_of acts) (threads (act a s), store (act a s))),
                  store := snd (run_threads (steps_of acts) (threads (act a s), store (act a s)))\<rparr>)"
      using Step t by (intro Cons.IH) simp
    with Step t show ?thesis by simp
  next
    case Pull
    let ?s1 = "act Pull s"
    have thr: "threads ?s1 = threads s"
      by (rule act_Pull_threads)
    obtain thrs' em where "\<forall>ch :: 'a chans.
        run_threads (steps_of acts) (threads s, ch) = (thrs', ch(q := ch q @ em))"
      using run_threads_appends [OF Cons.prems] by blast
    then have r: "run_threads (steps_of acts) (threads s, ch) = (thrs', ch(q := ch q @ em))"
      for ch :: "'a chans"
      by blast
    have "in_all (run_system acts ?s1)
       = in_all (?s1\<lparr>threads := fst (run_threads (steps_of acts) (threads ?s1, store ?s1)),
                  store := snd (run_threads (steps_of acts) (threads ?s1, store ?s1))\<rparr>)"
      using Cons.prems thr by (intro Cons.IH) simp
    also have "\<dots> = in_all (?s1\<lparr>threads := thrs', store := (store ?s1)(q := store ?s1 q @ em)\<rparr>)"
      unfolding thr r [of "store ?s1"] fst_conv snd_conv ..
    also have "\<dots> = in_all (?s1\<lparr>store := (store ?s1)(q := store ?s1 q @ em)\<rparr>)"
      by (simp add: in_all_def)
    also have "\<dots> = in_all (s\<lparr>store := (store s)(q := store s q @ em)\<rparr>)"
    proof (cases "ended s")
      case True
      then show ?thesis by (simp add: in_all_def)
    next
      case False
      then show ?thesis by (rule pull_then_arrivals)
    qed
    also have "\<dots> = in_all (s\<lparr>threads := thrs', store := (store s)(q := store s q @ em)\<rparr>)"
      by (simp add: in_all_def)
    finally have "in_all (run_system acts ?s1)
        = in_all (s\<lparr>threads := thrs', store := (store s)(q := store s q @ em)\<rparr>)" .
    then show ?thesis
      unfolding Pull steps_of.simps run_system.simps r [of "store s"] fst_conv snd_conv .
  qed
qed

lemma multiplex_interleaved:
  "in_all (run_system acts (multiplex_system q sources ch))
     = multiplex_list (steps_of acts) q sources ch"
proof -
  let ?s = "multiplex_system q sources ch"
  have s: "?s = \<lparr>threads = map (\<lambda>s. Thread_start s q) sources, store = ch(q := []),
                 merged = replicate (length sources) (genfrom_queue q), received = [], ended = False\<rparr>"
    by (simp add: multiplex_system_def multiplex_eq)
  have "\<forall>t\<in>set (threads ?s). fst t = q"
    unfolding s by (simp add: Thread_start_def)
  from interleaving [OF this, of acts] show ?thesis
    unfolding s by (simp add: in_all_def multiplex_list_def multiplex_eq case_prod_beta)
qed

subsection \<open>A complete run of multiplex\<close>

lemma pending_start:
  "pending (snd (Thread_start s q)) = pending (Pumping (items s) (ending s))"
  "fst (Thread_start s q) = q"
  by (simp_all add: Thread_start_def)

lemma pending_finite_seq:
  "pending (Pumping (items (finite_seq xs)) (ending (finite_seq xs))) = xs @ [StopIteration]"
  by (simp add: finite_seq_def)

lemma run_threads_none: "run_threads sched ([], ch) = ([], ch)"
  by (induction sched) (simp_all add: thread_step_def)

lemma complete_pending:
  assumes "complete sched q sources ch"
  shows "\<forall>t\<in>set (multiplex_threads sched q sources ch). pending (snd t) = []"
  using assms by (auto simp: complete_def list_all_iff terminated_pending)

text \<open>
  The complete schedules are those that name every thread at least as often as it has
  steps to take: one per item of its source and one more for the sentinel, or for the
  exception.
\<close>

lemma complete_iff:
  "complete sched q sources ch \<longleftrightarrow>
     (\<forall>i<length sources. Suc (length (items (sources ! i))) \<le> count_list sched i)"
proof -
  let ?thrs = "map (\<lambda>s. Thread_start s q) sources"
  let ?r = "fst (run_threads sched (?thrs, ch(q := [])))"
  from run_threads_steps_left [of sched ?thrs "ch(q := [])"]
  have len: "length ?r = length sources"
    and st: "\<forall>i<length sources. steps_left (snd (?r ! i))
               = Suc (length (items (sources ! i))) - count_list sched i"
    by (simp_all add: Thread_start_def)
  have "complete sched q sources ch \<longleftrightarrow> (\<forall>i<length ?r. steps_left (snd (?r ! i)) = 0)"
    by (simp add: complete_def multiplex_threads_def multiplex_eq list_all_length
        terminated_steps_left)
  also have "\<dots> \<longleftrightarrow> (\<forall>i<length sources. Suc (length (items (sources ! i))) \<le> count_list sched i)"
    using len st by auto
  finally show ?thesis .
qed

lemma multiplex_tally:
  fixes F :: "'a pyobj list \<Rightarrow> nat"
  assumes hom: "\<And>xs ys. F (xs @ ys) = F xs + F ys"
    and c: "complete sched q sources ch"
  shows "F (multiplex_arrivals sched q sources ch)
           = sum_list (map (\<lambda>s. F (pending (Pumping (items s) (ending s)))) sources)"
proof -
  let ?thrs = "map (\<lambda>s. Thread_start s q) sources"
  let ?r = "run_threads sched (?thrs, ch(q := []))"
  have F0: "F [] = 0"
    using hom [of "[]" "[]"] by simp
  have "F (snd ?r q) + sum_list (map (\<lambda>t. F (pending (snd t))) (fst ?r))
          = F ((ch(q := [])) q) + sum_list (map (\<lambda>t. F (pending (snd t))) ?thrs)"
    by (rule run_threads_tally [OF hom]) (simp add: pending_start)
  moreover have "sum_list (map (\<lambda>t. F (pending (snd t))) (fst ?r)) = 0"
    using complete_pending [OF c] by (simp add: multiplex_threads_def multiplex_eq F0)
  ultimately show ?thesis
    by (simp add: multiplex_arrivals_def multiplex_eq F0 pending_start comp_def)
qed

lemma multiplex_filter:
  assumes c: "complete sched q sources ch"
    and i: "i < length sources"
    and others: "\<forall>j<length sources. j \<noteq> i \<longrightarrow>
        (\<forall>x\<in>set (pending (Pumping (items (sources ! j)) (ending (sources ! j)))). \<not> P x)"
  shows "filter P (multiplex_arrivals sched q sources ch)
           = filter P (pending (Pumping (items (sources ! i)) (ending (sources ! i))))"
proof -
  let ?thrs = "map (\<lambda>s. Thread_start s q) sources"
  let ?r = "run_threads sched (?thrs, ch(q := []))"
  have len: "length (fst ?r) = length sources"
    using run_threads_on [of ?thrs q sched "ch(q := [])"] by (simp add: pending_start)
  have "filter P (snd ?r q) @ filter P (pending (snd (fst ?r ! i)))
          = filter P ((ch(q := [])) q) @ filter P (pending (snd (?thrs ! i)))"
    by (rule run_threads_filter) (use i others in \<open>simp_all add: pending_start\<close>)
  moreover have "pending (snd (fst ?r ! i)) = []"
    using complete_pending [OF c] i len by (simp add: multiplex_threads_def multiplex_eq)
  ultimately show ?thesis
    using i by (simp add: multiplex_arrivals_def multiplex_eq pending_start)
qed

lemma multiplex_finite_run:
  assumes fin: "\<forall>s\<in>set sources. ending s = Exhausted \<and> StopIteration \<notin> set (items s)"
    and c: "complete sched q sources ch"
  shows "length (filter (\<lambda>x. x = StopIteration) (multiplex_arrivals sched q sources ch))
           = length sources"
    and "multiplex_arrivals sched q sources ch = [] \<or>
         last (multiplex_arrivals sched q sources ch) = StopIteration"
    and "multiplex_list sched q sources ch
           = (filter (\<lambda>x. x \<noteq> StopIteration) (multiplex_arrivals sched q sources ch), Ended)"
proof -
  let ?thrs = "map (\<lambda>s. Thread_start s q) sources"
  let ?r = "run_threads sched (?thrs, ch(q := []))"
  let ?qs = "multiplex_arrivals sched q sources ch"
  have qs: "?qs = snd ?r q"
    by (simp add: multiplex_arrivals_def multiplex_eq)
  have "length (filter (\<lambda>x. x = StopIteration) ?qs)
          = sum_list (map (\<lambda>s. length (filter (\<lambda>x. x = StopIteration)
                                 (pending (Pumping (items s) (ending s))))) sources)"
    by (rule multiplex_tally [OF _ c]) simp
  also have "\<dots> = sum_list (map (\<lambda>s. 1) sources)"
    using fin by (intro arg_cong [where f = sum_list] map_cong) (auto simp: filter_empty_conv)
  also have "\<dots> = length sources"
    by (induction sources) simp_all
  finally show n: "length (filter (\<lambda>x. x = StopIteration) ?qs) = length sources" .
  have "(\<forall>t\<in>set (fst ?r). returning (snd t)) \<and>
        (snd ?r q = [] \<or> last (snd ?r q) = StopIteration \<or> (\<exists>t\<in>set (fst ?r). \<not> terminated (snd t)))"
    by (rule run_threads_last) (use fin in \<open>auto simp: Thread_start_def\<close>)
  moreover have "\<forall>t\<in>set (fst ?r). terminated (snd t)"
    using c by (simp add: complete_def multiplex_threads_def multiplex_eq list_all_iff)
  ultimately show l: "?qs = [] \<or> last ?qs = StopIteration"
    unfolding qs by blast
  have "gen_cat_list (replicate (length sources) (genfrom_queue q)) (snd ?r)
          = ((filter (\<lambda>x. x \<noteq> StopIteration) ?qs, Ended), [], (snd ?r)(q := []))"
    by (rule gen_cat_list_shared [OF n l]) (simp add: qs)
  then show "multiplex_list sched q sources ch
           = (filter (\<lambda>x. x \<noteq> StopIteration) ?qs, Ended)"
    by (simp add: multiplex_list_def multiplex_eq case_prod_beta)
qed

lemma single_thread_run:
  "run_threads (replicate (Suc (length xs)) 0) ([(q, Pumping xs Exhausted)], ch)
     = ([(q, Returned)], ch(q := ch q @ xs @ [StopIteration]))"
  by (induction xs arbitrary: ch) (simp_all add: thread_step_def put_def)

lemma items_from_filter:
  "items_from i (filter (\<lambda>y. \<exists>x. y = Val (i, x)) ys) = items_from i ys"
  by (induction i ys rule: items_from.induct) auto

lemma items_from_tagged: "items_from i (map (\<lambda>x. Val (i, x)) xs) = xs"
  by (induction xs) simp_all

subsection \<open>No source\<close>

text \<open>
  Claim C5. \<^verbatim>\<open>multiplex([])\<close> starts no thread and returns a merged sequence over no
  generator: its first pull reports the end at once, without a \<^verbatim>\<open>get\<close> on any queue, so
  the sequence yields nothing and ends instead of blocking, whatever the schedule.
\<close>

theorem multiplex_empty:
  "multiplex_list sched q [] ch = ([], Ended)
   \<and> fst (multiplex q [] ch) = ([], [])
   \<and> gen_cat_next (snd (fst (multiplex q [] ch))) (snd (multiplex q [] ch))
       = (End, [], snd (multiplex q [] ch))"
  by (simp add: multiplex_list_def multiplex_eq run_threads_none gen_cat_list.simps)

subsection \<open>One source\<close>

text \<open>
  Claim C6. For every finite sequence \<open>A\<close> of items (none of them the sentinel object),
  \<^verbatim>\<open>multiplex([A])\<close> yields exactly the elements of \<open>A\<close>, in the order of \<open>A\<close>, and
  ends: this holds for every schedule that lets the one thread run to its end, and
  letting it take its \<open>length A + 1\<close> steps is such a schedule.
\<close>

theorem multiplex_single:
  "StopIteration \<notin> set A \<longrightarrow>
     complete (replicate (Suc (length A)) 0) q [finite_seq A] ch
   \<and> (\<forall>sched. complete sched q [finite_seq A] ch \<longrightarrow>
        multiplex_list sched q [finite_seq A] ch = (A, Ended))"
proof (intro impI conjI allI)
  show "complete (replicate (Suc (length A)) 0) q [finite_seq A] ch"
    by (simp add: complete_def multiplex_threads_def multiplex_eq Thread_start_def
        finite_seq_def single_thread_run del: replicate_Suc)
next
  fix sched
  assume A: "StopIteration \<notin> set A" and c: "complete sched q [finite_seq A] ch"
  have "filter (\<lambda>x. x \<noteq> StopIteration) (multiplex_arrivals sched q [finite_seq A] ch)
          = filter (\<lambda>x. x \<noteq> StopIteration)
              (pending (Pumping (items ([finite_seq A] ! 0)) (ending ([finite_seq A] ! 0))))"
    by (rule multiplex_filter [OF c]) simp_all
  also have "\<dots> = A"
    using A by (auto simp: finite_seq_def filter_id_conv)
  finally have "filter (\<lambda>x. x \<noteq> StopIteration) (multiplex_arrivals sched q [finite_seq A] ch) = A" .
  moreover have "multiplex_list sched q [finite_seq A] ch
      = (filter (\<lambda>x. x \<noteq> StopIteration) (multiplex_arrivals sched q [finite_seq A] ch), Ended)"
    by (rule multiplex_finite_run(3) [OF _ c]) (use A in \<open>simp add: finite_seq_def\<close>)
  ultimately show "multiplex_list sched q [finite_seq A] ch = (A, Ended)"
    by simp
qed

theorem multiplex_single_witness:
  "complete [0, 0, 0] 5 [finite_seq [Val ''x'', Val ''y'']] (\<lambda>_. [])
   \<and> multiplex_list [0, 0, 0] 5 [finite_seq [Val ''x'', Val ''y'']] (\<lambda>_. [])
       = ([Val ''x'', Val ''y''], Ended)"
  using multiplex_single [of "[Val ''x'', Val ''y'']" 5 "\<lambda>_. []"]
  by (auto simp: numeral_3_eq_3)

subsection \<open>Three sources\<close>

text \<open>
  Claim C2. For all finite sequences \<open>A\<close>, \<open>B\<close>, \<open>C\<close> and every schedule that lets the
  three threads run to their end, \<^verbatim>\<open>multiplex([A,B,C])\<close> yields exactly
  \<open>length A + length B + length C\<close> items and ends, and the items that come from \<open>A\<close>
  appear, among those yielded, as \<open>A\<close> in its own order; likewise for \<open>B\<close> and \<open>C\<close>.
\<close>

theorem multiplex_three:
  "complete sched q [tagged 0 A, tagged 1 B, tagged 2 C] ch \<longrightarrow>
     snd (multiplex_list sched q [tagged 0 A, tagged 1 B, tagged 2 C] ch) = Ended
   \<and> length (fst (multiplex_list sched q [tagged 0 A, tagged 1 B, tagged 2 C] ch))
       = length A + length B + length C
   \<and> items_from 0 (fst (multiplex_list sched q [tagged 0 A, tagged 1 B, tagged 2 C] ch)) = A
   \<and> items_from 1 (fst (multiplex_list sched q [tagged 0 A, tagged 1 B, tagged 2 C] ch)) = B
   \<and> items_from 2 (fst (multiplex_list sched q [tagged 0 A, tagged 1 B, tagged 2 C] ch)) = C"
proof
  let ?srcs = "[tagged 0 A, tagged 1 B, tagged 2 C]"
  let ?arr = "multiplex_arrivals sched q ?srcs ch"
  let ?ns = "\<lambda>x :: (nat \<times> 'a) pyobj. x \<noteq> StopIteration"
  assume c: "complete sched q ?srcs ch"
  have out: "multiplex_list sched q ?srcs ch = (filter ?ns ?arr, Ended)"
    by (rule multiplex_finite_run(3) [OF _ c]) (auto simp: tagged_def finite_seq_def)
  have "length (filter ?ns ?arr)
      = sum_list (map (\<lambda>s. length (filter ?ns (pending (Pumping (items s) (ending s))))) ?srcs)"
    by (rule multiplex_tally [OF _ c]) simp
  also have "\<dots> = length A + length B + length C"
    by (simp add: tagged_def finite_seq_def filter_map comp_def)
  finally have len: "length (filter ?ns ?arr) = length A + length B + length C" .
  have orig: "items_from i (filter ?ns ?arr) = [A, B, C] ! i" if "i < 3" for i
  proof -
    let ?P = "\<lambda>y :: (nat \<times> 'a) pyobj. \<exists>x. y = Val (i, x)"
    have "filter ?P ?arr = filter ?P (pending (Pumping (items (?srcs ! i)) (ending (?srcs ! i))))"
      by (rule multiplex_filter [OF c])
         (use that in \<open>auto simp: tagged_def finite_seq_def nth_Cons less_Suc_eq
                         numeral_3_eq_3 split: nat.splits\<close>)
    also have "\<dots> = map (\<lambda>x. Val (i, x)) ([A, B, C] ! i)"
      using that
      by (auto simp: tagged_def finite_seq_def less_Suc_eq numeral_3_eq_3 numeral_2_eq_2
          filter_id_conv)
    finally have "filter ?P ?arr = map (\<lambda>x. Val (i, x)) ([A, B, C] ! i)" .
    moreover have "filter ?P (filter ?ns ?arr) = filter ?P ?arr"
      by (auto simp: filter_filter intro: filter_cong)
    ultimately have "items_from i (filter ?P (filter ?ns ?arr)) = [A, B, C] ! i"
      by (simp add: items_from_tagged)
    then show ?thesis
      by (simp only: items_from_filter)
  qed
  from orig [of 0] orig [of 1] orig [of 2] len
  show "snd (multiplex_list sched q ?srcs ch) = Ended
   \<and> length (fst (multiplex_list sched q ?srcs ch)) = length A + length B + length C
   \<and> items_from 0 (fst (multiplex_list sched q ?srcs ch)) = A
   \<and> items_from 1 (fst (multiplex_list sched q ?srcs ch)) = B
   \<and> items_from 2 (fst (multiplex_list sched q ?srcs ch)) = C"
    unfolding out by simp
qed

theorem multiplex_three_witness:
  "complete [0, 1, 2, 1, 0, 1] 0 [tagged 0 [''a''], tagged 1 [''b'', ''c''], tagged 2 []] (\<lambda>_. [])
   \<and> multiplex_list [0, 1, 2, 1, 0, 1] 0 [tagged 0 [''a''], tagged 1 [''b'', ''c''], tagged 2 []] (\<lambda>_. [])
       = ([Val (0, ''a''), Val (1, ''b''), Val (1, ''c'')], Ended)
   \<and> items_from 1 (fst (multiplex_list [0, 1, 2, 1, 0, 1] 0
         [tagged 0 [''a''], tagged 1 [''b'', ''c''], tagged 2 []] (\<lambda>_. []))) = [''b'', ''c'']"
proof -
  have c: "complete [0, 1, 2, 1, 0, 1] 0 [tagged 0 [''a''], tagged 1 [''b'', ''c''], tagged 2 []] (\<lambda>_. [])"
    by (simp add: complete_def multiplex_threads_def multiplex_def tagged_def finite_seq_def
        Thread_start_def thread_step_def put_def genfrom_queue_def gen_cat_def)
  have "multiplex_list [0, 1, 2, 1, 0, 1] 0 [tagged 0 [''a''], tagged 1 [''b'', ''c''], tagged 2 []] (\<lambda>_. [])
       = ([Val (0, ''a''), Val (1, ''b''), Val (1, ''c'')], Ended)"
    by (simp add: multiplex_list_def multiplex_def tagged_def finite_seq_def
        Thread_start_def thread_step_def put_def get_def genfrom_queue_def gen_cat_def
        genfrom_queue_next_def gen_cat_list.simps)
  with c multiplex_three [of "[0, 1, 2, 1, 0, 1]" 0 "[''a'']" "[''b'', ''c'']" "[]" "\<lambda>_. []"]
  show ?thesis by simp
qed

subsection \<open>Two sources: the order of the merged sequence\<close>

lemma shuffles_prefix_left: "z \<in> shuffles xs ys \<Longrightarrow> es @ z \<in> shuffles (es @ xs) ys"
  by (induction es) (simp_all add: Cons_in_shuffles_leftI)

lemma shuffles_prefix_right: "z \<in> shuffles xs ys \<Longrightarrow> es @ z \<in> shuffles xs (es @ ys)"
  by (induction es) (simp_all add: Cons_in_shuffles_rightI)

lemma run_two_threads:
  fixes a b :: "'a pump"
  assumes q0: "ch q = []"
  shows "\<exists>a' b'. fst (run_threads sched ([(q, a), (q, b)], ch)) = [(q, a'), (q, b')] \<and>
     (\<forall>z\<in>shuffles (filter (\<lambda>x. x \<noteq> StopIteration) (pending a'))
                   (filter (\<lambda>x. x \<noteq> StopIteration) (pending b')).
        filter (\<lambda>x. x \<noteq> StopIteration) (snd (run_threads sched ([(q, a), (q, b)], ch)) q) @ z
          \<in> shuffles (filter (\<lambda>x. x \<noteq> StopIteration) (pending a))
                     (filter (\<lambda>x. x \<noteq> StopIteration) (pending b)))"
proof -
  let ?ns = "\<lambda>x :: 'a pyobj. x \<noteq> StopIteration"
  let ?goal = "shuffles (filter ?ns (pending a)) (filter ?ns (pending b))"
  let ?I = "\<lambda>ts c. \<exists>a' b'. ts = [(q, a'), (q, b')] \<and>
     (\<forall>z\<in>shuffles (filter ?ns (pending a')) (filter ?ns (pending b')).
        filter ?ns (c q) @ z \<in> ?goal)"
  show ?thesis
  proof (rule run_threads_invariant [where I = ?I and q = q])
    show "?I [(q, a), (q, b)] ch" using q0 by simp
    show "\<forall>t\<in>set [(q, a), (q, b)]. fst t = q" by simp
  next
    fix pre post and p :: "'a pump" and c :: "'a chans"
    let ?p' = "fst (pump_step q p c)"
    assume "?I (pre @ (q, p) # post) c"
    then obtain a' b' where ts: "pre @ (q, p) # post = [(q, a'), (q, b')]"
      and inv: "\<forall>z\<in>shuffles (filter ?ns (pending a')) (filter ?ns (pending b')).
                  filter ?ns (c q) @ z \<in> ?goal"
      by blast
    obtain em where em: "snd (pump_step q p c) = c(q := c q @ em)" "pending p = em @ pending ?p'"
      using pump_step_emits by blast
    from ts consider (first) "pre = []" "p = a'" "post = [(q, b')]"
      | (second) "pre = [(q, a')]" "p = b'" "post = []"
      by (cases pre; cases "tl pre") auto
    then show "?I (pre @ (q, ?p') # post) (snd (pump_step q p c))"
    proof cases
      case first
      have "filter ?ns (c q @ em) @ z \<in> ?goal"
        if "z \<in> shuffles (filter ?ns (pending ?p')) (filter ?ns (pending b'))" for z
      proof -
        have "filter ?ns em @ z \<in> shuffles (filter ?ns (pending a')) (filter ?ns (pending b'))"
          using shuffles_prefix_left [OF that, of "filter ?ns em"] em(2) first by simp
        with inv show ?thesis by simp
      qed
      with first show ?thesis
        unfolding em(1) by simp
    next
      case second
      have "filter ?ns (c q @ em) @ z \<in> ?goal"
        if "z \<in> shuffles (filter ?ns (pending a')) (filter ?ns (pending ?p'))" for z
      proof -
        have "filter ?ns em @ z \<in> shuffles (filter ?ns (pending a')) (filter ?ns (pending b'))"
          using shuffles_prefix_right [OF that, of "filter ?ns em"] em(2) second by simp
        with inv show ?thesis by simp
      qed
      with second show ?thesis
        unfolding em(1) by simp
    qed
  qed
qed

lemma multiplex_two_shuffles:
  assumes A: "StopIteration \<notin> set A" and B: "StopIteration \<notin> set B"
    and c: "complete sched q [finite_seq A, finite_seq B] ch"
  shows "multiplex_list sched q [finite_seq A, finite_seq B] ch
           = (filter (\<lambda>x. x \<noteq> StopIteration)
                (multiplex_arrivals sched q [finite_seq A, finite_seq B] ch), Ended)"
    and "filter (\<lambda>x. x \<noteq> StopIteration)
           (multiplex_arrivals sched q [finite_seq A, finite_seq B] ch) \<in> shuffles A B"
proof -
  let ?ns = "\<lambda>x :: 'a pyobj. x \<noteq> StopIteration"
  let ?r = "run_threads sched ([(q, Pumping A Exhausted), (q, Pumping B Exhausted)], ch(q := []))"
  show "multiplex_list sched q [finite_seq A, finite_seq B] ch
           = (filter ?ns (multiplex_arrivals sched q [finite_seq A, finite_seq B] ch), Ended)"
    by (rule multiplex_finite_run(3) [OF _ c]) (use A B in \<open>simp add: finite_seq_def\<close>)
  obtain a' b' where r: "fst ?r = [(q, a'), (q, b')]"
    and sh: "\<forall>z\<in>shuffles (filter ?ns (pending a')) (filter ?ns (pending b')).
        filter ?ns (snd ?r q) @ z
          \<in> shuffles (filter ?ns (pending (Pumping A Exhausted)))
                     (filter ?ns (pending (Pumping B Exhausted)))"
    using run_two_threads [of "ch(q := [])" q sched "Pumping A Exhausted" "Pumping B Exhausted"]
    by auto
  have thr: "multiplex_threads sched q [finite_seq A, finite_seq B] ch = fst ?r"
    and arr: "multiplex_arrivals sched q [finite_seq A, finite_seq B] ch = snd ?r q"
    by (simp_all add: multiplex_threads_def multiplex_arrivals_def multiplex_eq
        Thread_start_def finite_seq_def)
  have "pending a' = []" "pending b' = []"
    using complete_pending [OF c] unfolding thr r by simp_all
  with sh have "filter ?ns (snd ?r q) \<in> shuffles (filter ?ns A) (filter ?ns B)"
    by simp
  moreover have "filter ?ns A = A" "filter ?ns B = B"
    using A B by (auto simp: filter_id_conv)
  ultimately show "filter ?ns (multiplex_arrivals sched q [finite_seq A, finite_seq B] ch)
      \<in> shuffles A B"
    unfolding arr by simp
qed

text \<open>
  Claim C1, as stated: for \<open>A = [a0, a1]\<close> and \<open>B = [b0, b1, b2]\<close> the merged sequence
  of \<^verbatim>\<open>multiplex([A,B])\<close> yields exactly \<open>[a0, b0, a1, b1, b2]\<close>, one element from the
  first source, then one from the second, in turn. It does not in every run. Both
  generators read the one queue, so a pull takes the entry at its head, whichever thread
  has put it there. When the first thread has run to its end before the second puts
  anything, the queue holds \<open>a0, a1, sentinel, b0, b1, b2, sentinel\<close> and the merged
  sequence yields \<open>[a0, a1, b0, b1, b2]\<close>.
\<close>

theorem multiplex_two_not_round_robin:
  "complete [0, 0, 0, 1, 1, 1, 1] 0
     [finite_seq [Val ''a0'', Val ''a1''], finite_seq [Val ''b0'', Val ''b1'', Val ''b2'']] (\<lambda>_. [])
   \<and> multiplex_list [0, 0, 0, 1, 1, 1, 1] 0
       [finite_seq [Val ''a0'', Val ''a1''], finite_seq [Val ''b0'', Val ''b1'', Val ''b2'']] (\<lambda>_. [])
     = ([Val ''a0'', Val ''a1'', Val ''b0'', Val ''b1'', Val ''b2''], Ended)
   \<and> fst (multiplex_list [0, 0, 0, 1, 1, 1, 1] 0
       [finite_seq [Val ''a0'', Val ''a1''], finite_seq [Val ''b0'', Val ''b1'', Val ''b2'']] (\<lambda>_. []))
     \<noteq> [Val ''a0'', Val ''b0'', Val ''a1'', Val ''b1'', Val ''b2'']"
  by (simp add: complete_def multiplex_threads_def multiplex_list_def multiplex_def finite_seq_def
      Thread_start_def thread_step_def put_def get_def genfrom_queue_def gen_cat_def
      genfrom_queue_next_def gen_cat_list.simps)

text \<open>
  Claim C1, amended. For \<open>A = [a0, a1]\<close> and \<open>B = [b0, b1, b2]\<close>, in every run in which
  both threads come to their end, the merged sequence of \<^verbatim>\<open>multiplex([A,B])\<close> yields
  the entries of the shared queue other than the sentinels, in the order of their
  arrival, and then ends: an interleaving of \<open>A\<close> and \<open>B\<close> that keeps the order of
  each. It is \<open>[a0, b0, a1, b1, b2]\<close> when the threads take their steps in turn.
\<close>

theorem multiplex_two:
  "(\<forall>sched. complete sched q [finite_seq [Val a0, Val a1], finite_seq [Val b0, Val b1, Val b2]] ch \<longrightarrow>
      snd (multiplex_list sched q
             [finite_seq [Val a0, Val a1], finite_seq [Val b0, Val b1, Val b2]] ch) = Ended
    \<and> fst (multiplex_list sched q
             [finite_seq [Val a0, Val a1], finite_seq [Val b0, Val b1, Val b2]] ch)
        = filter (\<lambda>x. x \<noteq> StopIteration) (multiplex_arrivals sched q
             [finite_seq [Val a0, Val a1], finite_seq [Val b0, Val b1, Val b2]] ch)
    \<and> fst (multiplex_list sched q
             [finite_seq [Val a0, Val a1], finite_seq [Val b0, Val b1, Val b2]] ch)
        \<in> shuffles [Val a0, Val a1] [Val b0, Val b1, Val b2])
   \<and> multiplex_list [0, 1, 0, 1, 0, 1, 1] q
        [finite_seq [Val a0, Val a1], finite_seq [Val b0, Val b1, Val b2]] ch
       = ([Val a0, Val b0, Val a1, Val b1, Val b2], Ended)"
proof (intro conjI allI impI)
  fix sched
  assume c: "complete sched q [finite_seq [Val a0, Val a1], finite_seq [Val b0, Val b1, Val b2]] ch"
  have "StopIteration \<notin> set [Val a0, Val a1]" "StopIteration \<notin> set [Val b0, Val b1, Val b2]"
    by simp_all
  note r = multiplex_two_shuffles [OF this c]
  show "snd (multiplex_list sched q
             [finite_seq [Val a0, Val a1], finite_seq [Val b0, Val b1, Val b2]] ch) = Ended"
    by (simp add: r(1))
  show "fst (multiplex_list sched q
             [finite_seq [Val a0, Val a1], finite_seq [Val b0, Val b1, Val b2]] ch)
        = filter (\<lambda>x. x \<noteq> StopIteration) (multiplex_arrivals sched q
             [finite_seq [Val a0, Val a1], finite_seq [Val b0, Val b1, Val b2]] ch)"
    by (simp add: r(1))
  show "fst (multiplex_list sched q
             [finite_seq [Val a0, Val a1], finite_seq [Val b0, Val b1, Val b2]] ch)
        \<in> shuffles [Val a0, Val a1] [Val b0, Val b1, Val b2]"
    using r(2) by (simp only: r(1) fst_conv)
next
  show "multiplex_list [0, 1, 0, 1, 0, 1, 1] q
        [finite_seq [Val a0, Val a1], finite_seq [Val b0, Val b1, Val b2]] ch
       = ([Val a0, Val b0, Val a1, Val b1, Val b2], Ended)"
    by (simp add: multiplex_list_def multiplex_def finite_seq_def
      Thread_start_def thread_step_def put_def get_def genfrom_queue_def gen_cat_def
      genfrom_queue_next_def gen_cat_list.simps)
qed

theorem multiplex_two_witness:
  "complete [1, 0, 1, 1, 0, 0, 1] 0
     [finite_seq [Val ''a0'', Val ''a1''], finite_seq [Val ''b0'', Val ''b1'', Val ''b2'']] (\<lambda>_. [])
   \<and> multiplex_list [1, 0, 1, 1, 0, 0, 1] 0
       [finite_seq [Val ''a0'', Val ''a1''], finite_seq [Val ''b0'', Val ''b1'', Val ''b2'']] (\<lambda>_. [])
     = ([Val ''b0'', Val ''a0'', Val ''b1'', Val ''b2'', Val ''a1''], Ended)
   \<and> [Val ''b0'', Val ''a0'', Val ''b1'', Val ''b2'', Val ''a1'']
       \<in> shuffles [Val ''a0'', Val ''a1''] [Val ''b0'', Val ''b1'', Val ''b2'']"
proof -
  have c: "complete [1, 0, 1, 1, 0, 0, 1] 0
     [finite_seq [Val ''a0'', Val ''a1''], finite_seq [Val ''b0'', Val ''b1'', Val ''b2'']] (\<lambda>_. [])"
    by (simp add: complete_def multiplex_threads_def multiplex_def finite_seq_def
      Thread_start_def thread_step_def put_def)
  have e: "multiplex_list [1, 0, 1, 1, 0, 0, 1] 0
       [finite_seq [Val ''a0'', Val ''a1''], finite_seq [Val ''b0'', Val ''b1'', Val ''b2'']] (\<lambda>_. [])
     = ([Val ''b0'', Val ''a0'', Val ''b1'', Val ''b2'', Val ''a1''], Ended)"
    by (simp add: multiplex_list_def multiplex_def finite_seq_def
      Thread_start_def thread_step_def put_def get_def genfrom_queue_def gen_cat_def
      genfrom_queue_next_def gen_cat_list.simps)
  from multiplex_two [of 0 "''a0''" "''a1''" "''b0''" "''b1''" "''b2''" "\<lambda>_. []"] c
  have "fst (multiplex_list [1, 0, 1, 1, 0, 0, 1] 0
       [finite_seq [Val ''a0'', Val ''a1''], finite_seq [Val ''b0'', Val ''b1'', Val ''b2'']] (\<lambda>_. []))
     \<in> shuffles [Val ''a0'', Val ''a1''] [Val ''b0'', Val ''b1'', Val ''b2'']"
    by blast
  with c e show ?thesis by (simp only: fst_conv simp_thms)
qed

subsection \<open>Sentinels on a channel\<close>

text \<open>
  Claim C3, as stated: every queue receives the sentinel at most once, as its last entry,
  and this holds for every queue that \<^verbatim>\<open>multiplex\<close> creates for its sources.
  \<^verbatim>\<open>multiplex\<close> creates one queue for all its sources, and each of its threads ends by
  putting a sentinel into it: with two sources of one item each, the first thread running
  before the second, the queue receives \<open>a0, sentinel, b0, sentinel\<close>, two sentinels,
  the first of them followed by an item.
\<close>

theorem shared_channel_many_sentinels:
  "complete [0, 0, 1, 1] 0 [finite_seq [Val ''a0''], finite_seq [Val ''b0'']] (\<lambda>_. [])
   \<and> multiplex_arrivals [0, 0, 1, 1] 0 [finite_seq [Val ''a0''], finite_seq [Val ''b0'']] (\<lambda>_. [])
       = [Val ''a0'', StopIteration, Val ''b0'', StopIteration]
   \<and> \<not> length (filter (\<lambda>x. x = StopIteration)
          (multiplex_arrivals [0, 0, 1, 1] 0
             [finite_seq [Val ''a0''], finite_seq [Val ''b0'']] (\<lambda>_. []))) \<le> 1"
  by (simp add: complete_def multiplex_threads_def multiplex_arrivals_def multiplex_def
      finite_seq_def Thread_start_def thread_step_def put_def)

text \<open>
  Claim C3, amended. A queue fed by one \<^verbatim>\<open>sendto_queue\<close> call, on a finite upstream of
  items that ends normally, receives the sentinel once, as its last entry; its
  \<^verbatim>\<open>genfrom_queue\<close> consumer is delivered every item, then the end of the sequence, and
  the queue is left empty. The one queue that \<^verbatim>\<open>multiplex\<close> creates is shared by its
  \<open>N\<close> sources: when every thread has come to its end it has received exactly \<open>N\<close>
  sentinels, one from each thread, the last of them as its last entry.
\<close>

theorem channel_sentinels:
  "(StopIteration \<notin> set xs \<longrightarrow>
      snd (sendto_queue (finite_seq xs) q (ch(q := []))) q = xs @ [StopIteration]
    \<and> consume (genfrom_queue q) (snd (sendto_queue (finite_seq xs) q (ch(q := []))))
        = ((xs, Ended), \<lparr>chan = q, finished = True\<rparr>, ch(q := [])))
   \<and> ((\<forall>s\<in>set sources. ending s = Exhausted \<and> StopIteration \<notin> set (items s))
       \<and> complete sched q sources ch \<longrightarrow>
      length (filter (\<lambda>x. x = StopIteration) (multiplex_arrivals sched q sources ch))
        = length sources
    \<and> (sources \<noteq> [] \<longrightarrow> last (multiplex_arrivals sched q sources ch) = StopIteration))"
proof (intro conjI impI)
  assume xs: "StopIteration \<notin> set xs"
  show "snd (sendto_queue (finite_seq xs) q (ch(q := []))) q = xs @ [StopIteration]"
    by (simp add: sendto_queue_exhausted)
  have "consume (genfrom_queue q) (ch(q := xs @ [StopIteration]))
      = ((xs, Ended), (genfrom_queue q)\<lparr>finished := True\<rparr>,
         (ch(q := xs @ [StopIteration]))(chan (genfrom_queue q) := []))"
    by (rule consume_upto_sentinel [OF xs]) (simp_all add: genfrom_queue_def)
  then show "consume (genfrom_queue q) (snd (sendto_queue (finite_seq xs) q (ch(q := []))))
        = ((xs, Ended), \<lparr>chan = q, finished = True\<rparr>, ch(q := []))"
    by (simp add: sendto_queue_exhausted genfrom_queue_def)
next
  assume h: "(\<forall>s\<in>set sources. ending s = Exhausted \<and> StopIteration \<notin> set (items s))
       \<and> complete sched q sources ch"
  then have fin: "\<forall>s\<in>set sources. ending s = Exhausted \<and> StopIteration \<notin> set (items s)"
    and c: "complete sched q sources ch"
    by simp_all
  note r = multiplex_finite_run [OF fin c]
  show "length (filter (\<lambda>x. x = StopIteration) (multiplex_arrivals sched q sources ch))
        = length sources"
    by (rule r(1))
  show "last (multiplex_arrivals sched q sources ch) = StopIteration" if "sources \<noteq> []"
    using r(1,2) that by auto
qed

theorem channel_sentinels_witness:
  "snd (sendto_queue (finite_seq [Val ''a0'', Val ''a1'']) 0 (\<lambda>_. [])) 0
     = [Val ''a0'', Val ''a1'', StopIteration]
   \<and> consume (genfrom_queue 0) (snd (sendto_queue (finite_seq [Val ''a0'', Val ''a1'']) 0 (\<lambda>_. [])))
     = (([Val ''a0'', Val ''a1''], Ended), \<lparr>chan = 0, finished = True\<rparr>, \<lambda>_. [])
   \<and> complete [0, 1, 1, 0] 0 [finite_seq [Val ''a0''], finite_seq [Val ''b0'']] (\<lambda>_. [])
   \<and> length (filter (\<lambda>x. x = StopIteration)
        (multiplex_arrivals [0, 1, 1, 0] 0 [finite_seq [Val ''a0''], finite_seq [Val ''b0'']] (\<lambda>_. [])))
     = 2
   \<and> last (multiplex_arrivals [0, 1, 1, 0] 0 [finite_seq [Val ''a0''], finite_seq [Val ''b0'']] (\<lambda>_. []))
     = StopIteration"
proof -
  have c: "complete [0, 1, 1, 0] 0 [finite_seq [Val ''a0''], finite_seq [Val ''b0'']] (\<lambda>_. [])"
    by (simp add: complete_def multiplex_threads_def multiplex_def finite_seq_def
      Thread_start_def thread_step_def put_def)
  have f: "\<forall>s\<in>set [finite_seq [Val ''a0''], finite_seq [Val ''b0'']].
      ending s = Exhausted \<and> StopIteration \<notin> set (items s)"
    by (simp add: finite_seq_def)
  have e: "(\<lambda>_. [])(0 := []) = (\<lambda>_. [] :: string pyobj list)"
    by auto
  note t = channel_sentinels [of "[Val ''a0'', Val ''a1'']" 0 "\<lambda>_. []"
      "[finite_seq [Val ''a0''], finite_seq [Val ''b0'']]" "[0, 1, 1, 0]", unfolded e]
  from t have s: "snd (sendto_queue (finite_seq [Val ''a0'', Val ''a1'']) 0 (\<lambda>_. [])) 0
     = [Val ''a0'', Val ''a1'', StopIteration]"
    "consume (genfrom_queue 0) (snd (sendto_queue (finite_seq [Val ''a0'', Val ''a1'']) 0 (\<lambda>_. [])))
     = (([Val ''a0'', Val ''a1''], Ended), \<lparr>chan = 0, finished = True\<rparr>, \<lambda>_. [])"
    by simp_all
  from t c f have m: "length (filter (\<lambda>x. x = StopIteration)
        (multiplex_arrivals [0, 1, 1, 0] 0 [finite_seq [Val ''a0''], finite_seq [Val ''b0'']] (\<lambda>_. [])))
     = 2"
    "last (multiplex_arrivals [0, 1, 1, 0] 0 [finite_seq [Val ''a0''], finite_seq [Val ''b0'']] (\<lambda>_. []))
     = StopIteration"
    by simp_all
  from s c m show ?thesis
    by (intro conjI)
qed

subsection \<open>Broadcast\<close>

lemma send_each_log:
  "snd (send_each cs item (ch, log)) = log @ map (\<lambda>c. (in_q c, item)) cs"
  by (induction cs arbitrary: ch log) simp_all

lemma send_each_queue:
  "distinct (map in_q cs) \<Longrightarrow>
     fst (send_each cs item (ch, log)) q
       = (if q \<in> in_q ` set cs then ch q @ [item] else ch q)"
  by (induction cs arbitrary: ch log) (auto simp: send_def put_def)

lemma broadcast_log:
  "snd (broadcast source sinks (ch, log))
     = log @ concat (map (\<lambda>item. map (\<lambda>c. (in_q c, item)) sinks) (source @ [StopIteration]))"
proof (induction source arbitrary: ch log)
  case Nil
  then show ?case by (simp add: send_each_log)
next
  case (Cons item source)
  obtain ch' log' where s: "send_each sinks item (ch, log) = (ch', log')"
    by (cases "send_each sinks item (ch, log)")
  then have "log' = log @ map (\<lambda>c. (in_q c, item)) sinks"
    using send_each_log [of sinks item ch log] by simp
  with Cons [of ch' log'] s show ?case by simp
qed

lemma broadcast_queue:
  "distinct (map in_q sinks) \<Longrightarrow>
     fst (broadcast source sinks (ch, log)) q
       = (if q \<in> in_q ` set sinks then ch q @ source @ [StopIteration] else ch q)"
proof (induction source arbitrary: ch log)
  case Nil
  then show ?case by (simp add: send_each_queue)
next
  case (Cons item source)
  obtain ch' log' where s: "send_each sinks item (ch, log) = (ch', log')"
    by (cases "send_each sinks item (ch, log)")
  then have "ch' q = (if q \<in> in_q ` set sinks then ch q @ [item] else ch q)"
    using send_each_queue [OF Cons.prems, of item ch log q] by simp
  with Cons.IH [OF Cons.prems, of ch' log'] s show ?case by simp
qed

text \<open>
  Claim C8. For every finite source \<open>S\<close> and every list of sinks, \<^verbatim>\<open>broadcast\<close> puts
  each element of \<open>S\<close> into the queue of every sink, in the order of the list of sinks,
  before it goes on to the next element, and after the last element puts the sentinel
  into the queue of every sink once. When the sinks are distinct consumer threads (each
  has the queue its constructor made, empty before the call) and \<open>S\<close> consists of
  items, the queue of every sink then holds \<open>S\<close> followed by the sentinel, and the
  generator its target is given yields \<open>S\<close> exactly and ends.
\<close>

theorem broadcast_fidelity:
  "snd (broadcast S sinks (ch, log))
     = log @ concat (map (\<lambda>item. map (\<lambda>c. (in_q c, item)) sinks) (S @ [StopIteration]))
   \<and> (distinct (map in_q sinks) \<and> (\<forall>c\<in>set sinks. ch (in_q c) = []) \<and> StopIteration \<notin> set S \<longrightarrow>
        (\<forall>c\<in>set sinks.
           fst (broadcast S sinks (ch, log)) (in_q c) = S @ [StopIteration]
         \<and> fst (consume (run c) (fst (broadcast S sinks (ch, log)))) = (S, Ended)))"
proof (intro conjI impI ballI)
  show "snd (broadcast S sinks (ch, log))
     = log @ concat (map (\<lambda>item. map (\<lambda>c. (in_q c, item)) sinks) (S @ [StopIteration]))"
    by (rule broadcast_log)
next
  fix c
  assume h: "distinct (map in_q sinks) \<and> (\<forall>c\<in>set sinks. ch (in_q c) = []) \<and> StopIteration \<notin> set S"
    and c: "c \<in> set sinks"
  then show q: "fst (broadcast S sinks (ch, log)) (in_q c) = S @ [StopIteration]"
    by (simp add: broadcast_queue)
  have "consume (run c) (fst (broadcast S sinks (ch, log)))
      = ((S, Ended), (run c)\<lparr>finished := True\<rparr>,
         (fst (broadcast S sinks (ch, log)))(chan (run c) := []))"
    by (rule consume_upto_sentinel) (use h q in \<open>simp_all add: run_def genfrom_queue_def\<close>)
  then show "fst (consume (run c) (fst (broadcast S sinks (ch, log)))) = (S, Ended)"
    by simp
qed

theorem broadcast_fidelity_witness:
  "snd (broadcast [Val ''r1'', Val ''r2''] [\<lparr>in_q = 3\<rparr>, \<lparr>in_q = 5\<rparr>] (\<lambda>_. [], []))
     = [(3, Val ''r1''), (5, Val ''r1''), (3, Val ''r2''), (5, Val ''r2''),
        (3, StopIteration), (5, StopIteration)]
   \<and> fst (consume (run \<lparr>in_q = 3\<rparr>)
         (fst (broadcast [Val ''r1'', Val ''r2''] [\<lparr>in_q = 3\<rparr>, \<lparr>in_q = 5\<rparr>] (\<lambda>_. [], []))))
     = ([Val ''r1'', Val ''r2''], Ended)
   \<and> fst (consume (run \<lparr>in_q = 5\<rparr>)
         (fst (broadcast [Val ''r1'', Val ''r2''] [\<lparr>in_q = 3\<rparr>, \<lparr>in_q = 5\<rparr>] (\<lambda>_. [], []))))
     = ([Val ''r1'', Val ''r2''], Ended)"
  using broadcast_fidelity [of "[Val ''r1'', Val ''r2'']" "[\<lparr>in_q = 3\<rparr>, \<lparr>in_q = 5\<rparr>]" "\<lambda>_. []" "[]"]
  by simp

end
